theory Spec2Isabelle
  imports Main
begin

section \<open>Pagination utilities (the pagination module of the Linear client)\<close>

text \<open>
  The TypeScript interfaces \<^verbatim>\<open>PaginatedResult<T>\<close> and \<^verbatim>\<open>PaginationOptions\<close>.
  An optional field (\<^verbatim>\<open>pageInfo?\<close>, \<^verbatim>\<open>first?\<close>, \<^verbatim>\<open>after?\<close>) and a nullable one
  (\<^verbatim>\<open>endCursor: string | null\<close>) are \<open>option\<close> values. Page sizes are integers (the
  GraphQL argument \<^verbatim>\<open>first\<close> is an \<^verbatim>\<open>Int\<close>); fractional numbers and NaN are outside the model.
\<close>

record PageInfo =
  hasNextPage :: bool
  endCursor :: "string option"

record 'a PaginatedResult =
  nodes :: "'a list"
  pageInfo :: "PageInfo option"

record PaginationOptions =
  first :: "int option"
  after :: "string option"

text \<open>
  \<^verbatim>\<open>PageFetcher<T> = (options) => Promise<PaginatedResult<T>>\<close>. The backend is outside
  the program: a fetch reads and changes a world \<open>'w\<close>, and its promise either rejects with
  an error (\<open>Inl\<close>) or fulfils with a page (\<open>Inr\<close>).
\<close>

type_synonym ('a, 'e, 'w) PageFetcher =
  "PaginationOptions \<Rightarrow> 'w \<Rightarrow> ('e + 'a PaginatedResult) \<times> 'w"

text \<open>
  JavaScript truthiness of a \<^verbatim>\<open>string | null\<close> value, as tested by
  \<^verbatim>\<open>!result.pageInfo.endCursor\<close>: \<^verbatim>\<open>null\<close> and the empty string are falsy.
\<close>

definition truthy :: "string option \<Rightarrow> bool" where
  "truthy c = (case c of None \<Rightarrow> False | Some s \<Rightarrow> s \<noteq> [])"

subsection \<open>The class \<^verbatim>\<open>Paginator<T>\<close>\<close>

text \<open>
  The four private fields; \<^verbatim>\<open>first\<close> is \<open>this_first\<close> here, the name \<open>first\<close> being
  taken by the options record.
\<close>

record ('a, 'e, 'w) Paginator =
  fetchPage :: "('a, 'e, 'w) PageFetcher"
  this_first :: int
  currentCursor :: "string option"
  hasMore :: bool

text \<open>\<^verbatim>\<open>constructor(fetchPage, first: number = 50)\<close>: the default applies when the
  argument is left out.\<close>

definition new_Paginator ::
  "('a, 'e, 'w) PageFetcher \<Rightarrow> int option \<Rightarrow> ('a, 'e, 'w) Paginator" where
  "new_Paginator fp n =
     \<lparr> fetchPage = fp,
       this_first = (case n of None \<Rightarrow> 50 | Some k \<Rightarrow> k),
       currentCursor = None,
       hasMore = True \<rparr>"

text \<open>
  \<^verbatim>\<open>nextPage()\<close>. The result is the settled promise, the object after the call and the
  world after the call. A rejected fetch leaves the \<^verbatim>\<open>await\<close> by throwing, before any
  field is assigned.
\<close>

definition nextPage ::
  "('a, 'e, 'w) Paginator \<Rightarrow> 'w \<Rightarrow>
     ('e + 'a PaginatedResult) \<times> ('a, 'e, 'w) Paginator \<times> 'w" where
  "nextPage this w =
     (if \<not> hasMore this then (Inr \<lparr> nodes = [], pageInfo = None \<rparr>, this, w)
      else
        (case fetchPage this \<lparr> first = Some (this_first this), after = currentCursor this \<rparr> w of
           (Inl e, w') \<Rightarrow> (Inl e, this, w')
         | (Inr result, w') \<Rightarrow>
             (let this1 =
                    (case pageInfo result of
                       None \<Rightarrow> this \<lparr> hasMore := False \<rparr>
                     | Some pi \<Rightarrow>
                         if \<not> hasNextPage pi \<or> \<not> truthy (endCursor pi)
                         then this \<lparr> hasMore := False \<rparr>
                         else this \<lparr> currentCursor := endCursor pi \<rparr>);
                  this2 =
                    (if int (length (nodes result)) < this_first this1
                     then this1 \<lparr> hasMore := False \<rparr>
                     else this1)
              in (Inr result, this2, w'))))"

text \<open>\<^verbatim>\<open>hasNextPage()\<close> and \<^verbatim>\<open>reset()\<close>.\<close>

definition Paginator_hasNextPage :: "('a, 'e, 'w) Paginator \<Rightarrow> bool" where
  "Paginator_hasNextPage this = hasMore this"

definition reset :: "('a, 'e, 'w) Paginator \<Rightarrow> ('a, 'e, 'w) Paginator" where
  "reset this = this \<lparr> currentCursor := None, hasMore := True \<rparr>"

text \<open>
  \<^verbatim>\<open>fetchAll()\<close>: the loop \<^verbatim>\<open>while (this.hasMore) { ... }\<close> with its accumulator
  \<^verbatim>\<open>allNodes\<close>. The loop has no bound, so it is a partial function: \<open>None\<close> is a call that
  never returns, \<open>Some (Inl e, _)\<close> one that throws \<open>e\<close>, \<open>Some (Inr xs, _)\<close> one that
  returns \<open>xs\<close>.
\<close>

partial_function (option) fetchAll_loop ::
  "('a, 'e, 'w) Paginator \<Rightarrow> 'w \<Rightarrow> 'a list \<Rightarrow>
     (('e + 'a list) \<times> ('a, 'e, 'w) Paginator \<times> 'w) option" where
  "fetchAll_loop this w allNodes =
     (if hasMore this then
        (case nextPage this w of
           (Inl e, this', w') \<Rightarrow> Some (Inl e, this', w')
         | (Inr result, this', w') \<Rightarrow> fetchAll_loop this' w' (allNodes @ nodes result))
      else Some (Inr allNodes, this, w))"

definition fetchAll ::
  "('a, 'e, 'w) Paginator \<Rightarrow> 'w \<Rightarrow> (('e + 'a list) \<times> ('a, 'e, 'w) Paginator \<times> 'w) option" where
  "fetchAll this w = fetchAll_loop this w []"

subsection \<open>The free function \<^verbatim>\<open>fetchAllPages\<close>\<close>

text \<open>
  The loop variables are \<^verbatim>\<open>allNodes\<close>, \<^verbatim>\<open>hasNextPage\<close> (here \<open>hasNext\<close>, the name being
  a field of \<open>PageInfo\<close>) and \<^verbatim>\<open>after\<close> (here \<open>cur\<close>); \<^verbatim>\<open>first\<close> is constant.
\<close>

partial_function (option) fetchAllPages_loop ::
  "('a, 'e, 'w) PageFetcher \<Rightarrow> int \<Rightarrow> 'w \<Rightarrow> 'a list \<Rightarrow> bool \<Rightarrow> string option \<Rightarrow>
     (('e + 'a list) \<times> 'w) option" where
  "fetchAllPages_loop fp n w allNodes hasNext cur =
     (if hasNext then
        (case fp \<lparr> first = Some n, after = cur \<rparr> w of
           (Inl e, w') \<Rightarrow> Some (Inl e, w')
         | (Inr result, w') \<Rightarrow>
             (let (hasNext1, cur1) =
                    (case pageInfo result of
                       None \<Rightarrow> (False, cur)
                     | Some pi \<Rightarrow>
                         if \<not> hasNextPage pi \<or> \<not> truthy (endCursor pi)
                         then (False, cur)
                         else (hasNext, endCursor pi));
                  hasNext2 = (if int (length (nodes result)) < n then False else hasNext1)
              in fetchAllPages_loop fp n w' (allNodes @ nodes result) hasNext2 cur1))
      else Some (Inr allNodes, w))"

text \<open>
  \<^verbatim>\<open>options: PaginationOptions = { first: 50 }\<close> is the default argument, and
  \<^verbatim>\<open>options.first || 50\<close> replaces a missing or zero page size by 50.
\<close>

definition fetchAllPages ::
  "('a, 'e, 'w) PageFetcher \<Rightarrow> PaginationOptions option \<Rightarrow> 'w \<Rightarrow> (('e + 'a list) \<times> 'w) option" where
  "fetchAllPages fp opts w =
     (let options = (case opts of None \<Rightarrow> \<lparr> first = Some 50, after = None \<rparr> | Some x \<Rightarrow> x);
          n = (case first options of None \<Rightarrow> 50 | Some k \<Rightarrow> if k = 0 then 50 else k)
      in fetchAllPages_loop fp n w [] True (after options))"

subsection \<open>Backends and observers used to state the properties\<close>

text \<open>
  A deterministic backend answers a request by a function of the request alone and has
  no state of its own.
\<close>

definition deterministic ::
  "(PaginationOptions \<Rightarrow> 'e + 'a PaginatedResult) \<Rightarrow> ('a, 'e, 'w) PageFetcher" where
  "deterministic f = (\<lambda>options w. (f options, w))"

text \<open>
  A spy around a fetch operation: the world is extended by the list of the requests the
  operation has received, oldest first.
\<close>

definition logging ::
  "('a, 'e, 'w) PageFetcher \<Rightarrow> ('a, 'e, 'w \<times> PaginationOptions list) PageFetcher" where
  "logging fp = (\<lambda>options (w, calls).
     case fp options w of (r, w') \<Rightarrow> (r, (w', calls @ [options])))"

text \<open>The outcome of the last of \<open>k + 1\<close> successive calls of \<^verbatim>\<open>nextPage()\<close>.\<close>

fun nth_nextPage ::
  "nat \<Rightarrow> ('a, 'e, 'w) Paginator \<Rightarrow> 'w \<Rightarrow>
     ('e + 'a PaginatedResult) \<times> ('a, 'e, 'w) Paginator \<times> 'w" where
  "nth_nextPage 0 this w = nextPage this w"
| "nth_nextPage (Suc k) this w =
     (case nextPage this w of (r, this', w') \<Rightarrow> nth_nextPage k this' w')"

text \<open>
  A caller's sequence of method calls on one Paginator; a thrown error is caught by the
  caller, who goes on with the next call. \<open>None\<close>: some \<^verbatim>\<open>fetchAll()\<close> never returned.
\<close>

datatype call = NextPage | FetchAll

fun run_calls ::
  "call list \<Rightarrow> ('a, 'e, 'w) Paginator \<Rightarrow> 'w \<Rightarrow> (('a, 'e, 'w) Paginator \<times> 'w) option" where
  "run_calls [] this w = Some (this, w)"
| "run_calls (NextPage # cs) this w =
     (case nextPage this w of (r, this', w') \<Rightarrow> run_calls cs this' w')"
| "run_calls (FetchAll # cs) this w =
     (case fetchAll this w of
        None \<Rightarrow> None
      | Some (r, this', w') \<Rightarrow> run_calls cs this' w')"

text \<open>
  The pages after which a traversal with page size \<open>n\<close> stops: no page metadata,
  \<^verbatim>\<open>hasNextPage\<close> false, an end cursor that is \<^verbatim>\<open>null\<close> or the empty string, or fewer than
  \<open>n\<close> nodes.
\<close>

definition page_ends_traversal :: "int \<Rightarrow> 'a PaginatedResult \<Rightarrow> bool" where
  "page_ends_traversal n P \<longleftrightarrow>
     pageInfo P = None
     \<or> (\<exists>pi. pageInfo P = Some pi \<and>
           (\<not> hasNextPage pi \<or> endCursor pi = None \<or> endCursor pi = Some []))
     \<or> int (length (nodes P)) < n"

text \<open>A settled fetch ends the loop of \<^verbatim>\<open>fetchAll()\<close> when it is rejected or its page ends
  the traversal.\<close>

definition ends_loop :: "int \<Rightarrow> 'e + 'a PaginatedResult \<Rightarrow> bool" where
  "ends_loop n r = (case r of Inl e \<Rightarrow> True | Inr P \<Rightarrow> page_ends_traversal n P)"

text \<open>
  Scenario B of the specification: the first page has 50 nodes and end cursor \<open>c1\<close>; the
  page after \<open>c1\<close> has 12 nodes and still reports a next page, with end cursor \<open>c2\<close>. Any
  other request is rejected.
\<close>

definition scenarioB :: "PaginationOptions \<Rightarrow> string + nat PaginatedResult" where
  "scenarioB options =
     (if after options = None then
        Inr \<lparr> nodes = [0..<50],
              pageInfo = Some \<lparr> hasNextPage = True, endCursor = Some ''c1'' \<rparr> \<rparr>
      else if after options = Some ''c1'' then
        Inr \<lparr> nodes = [50..<62],
              pageInfo = Some \<lparr> hasNextPage = True, endCursor = Some ''c2'' \<rparr> \<rparr>
      else Inl ''unexpected cursor'')"

text \<open>A full page whose metadata reports a next page and whose end cursor is the empty
  string.\<close>

definition empty_cursor_page :: "nat PaginatedResult" where
  "empty_cursor_page =
     \<lparr> nodes = [0], pageInfo = Some \<lparr> hasNextPage = True, endCursor = Some [] \<rparr> \<rparr>"

text \<open>A backend that answers every request with one node, a next page and the cursor \<open>c\<close>.\<close>

definition always_more :: "PaginationOptions \<Rightarrow> string + nat PaginatedResult" where
  "always_more options =
     Inr \<lparr> nodes = [0], pageInfo = Some \<lparr> hasNextPage = True, endCursor = Some ''c'' \<rparr> \<rparr>"

text \<open>The backend that answers every request with that page.\<close>

definition empty_cursor_backend :: "PaginationOptions \<Rightarrow> string + nat PaginatedResult" where
  "empty_cursor_backend options = Inr empty_cursor_page"

text \<open>A backend whose first page is full and reports the cursor \<open>c1\<close>, and which rejects
  every request that carries a cursor.\<close>

definition failing_second :: "PaginationOptions \<Rightarrow> string + nat PaginatedResult" where
  "failing_second options =
     (if after options = None then
        Inr \<lparr> nodes = [0], pageInfo = Some \<lparr> hasNextPage = True, endCursor = Some ''c1'' \<rparr> \<rparr>
      else Inl ''backend down'')"

text \<open>A Paginator over the spied scenario B backend that has finished its traversal.\<close>

definition exhausted ::
  "(nat, string, unit \<times> PaginationOptions list) Paginator" where
  "exhausted =
     \<lparr> fetchPage = logging (deterministic scenarioB), this_first = 50,
       currentCursor = Some ''c2'', hasMore = False \<rparr>"

section \<open>The cycle resources (\<^verbatim>\<open>registerCycleResources\<close>) and the client they call\<close>

text \<open>
  The fields of the SDK's team and cycle objects that the listing reads. The name of a
  cycle is optional in the SDK.
\<close>

record Team =
  team_id :: string
  team_name :: string

record Cycle =
  cycle_id :: string
  cycle_name :: "string option"
  startsAt :: string
  endsAt :: string

text \<open>
  The two queries of the SDK client (\<^verbatim>\<open>this.client.teams\<close>, \<^verbatim>\<open>this.client.cycles\<close>) that
  \<^verbatim>\<open>LinearClient\<close> wraps. The SDK is a library outside the repository, so both are
  parameters. The cycles query takes the team id of its filter
  \<^verbatim>\<open>{ team: { id: { eq: teamId } } }\<close> as second argument.
\<close>

record ('e, 'w) LinearSDK =
  teams :: "PaginationOptions \<Rightarrow> 'w \<Rightarrow> ('e + Team PaginatedResult) \<times> 'w"
  cycles :: "PaginationOptions \<Rightarrow> string \<Rightarrow> 'w \<Rightarrow> ('e + Cycle PaginatedResult) \<times> 'w"

text \<open>\<^verbatim>\<open>LinearClient.listTeams\<close> and \<^verbatim>\<open>LinearClient.listCycles\<close>: the destructuring
  \<^verbatim>\<open>{ first = 50, after } = options\<close> fills in a missing page size.\<close>

definition listTeams ::
  "('e, 'w) LinearSDK \<Rightarrow> PaginationOptions \<Rightarrow> 'w \<Rightarrow> ('e + Team PaginatedResult) \<times> 'w" where
  "listTeams client options w =
     teams client
       \<lparr> first = Some (case first options of None \<Rightarrow> 50 | Some k \<Rightarrow> k),
         after = after options \<rparr> w"

definition listCycles ::
  "('e, 'w) LinearSDK \<Rightarrow> string \<Rightarrow> PaginationOptions \<Rightarrow> 'w \<Rightarrow>
     ('e + Cycle PaginatedResult) \<times> 'w" where
  "listCycles client teamId options w =
     cycles client
       \<lparr> first = Some (case first options of None \<Rightarrow> 50 | Some k \<Rightarrow> k),
         after = after options \<rparr> teamId w"

text \<open>
  \<^verbatim>\<open>formatCycleDates\<close>. How a date string is rendered
  (\<^verbatim>\<open>new Date(s).toLocaleDateString()\<close>) depends on the runtime's locale and is a parameter.
\<close>

definition formatCycleDates :: "(string \<Rightarrow> string) \<Rightarrow> Cycle \<Rightarrow> string" where
  "formatCycleDates toLocaleDateString cycle =
     toLocaleDateString (startsAt cycle) @ '' to '' @ toLocaleDateString (endsAt cycle)"

text \<open>The resource descriptor built for one cycle of one team; \<^verbatim>\<open>cycle.name || ...\<close>
  falls back when the name is missing or empty.\<close>

record ResourceDescriptor =
  uri :: string
  name :: string
  description :: string

definition cycle_descriptor :: "(string \<Rightarrow> string) \<Rightarrow> Team \<Rightarrow> Cycle \<Rightarrow> ResourceDescriptor" where
  "cycle_descriptor toLocaleDateString team cycle =
     \<lparr> uri = ''linear://cycles/'' @ cycle_id cycle,
       name = (case cycle_name cycle of
                 None \<Rightarrow> ''Cycle '' @ cycle_id cycle
               | Some s \<Rightarrow> if s = [] then ''Cycle '' @ cycle_id cycle else s),
       description = team_name team @ '' cycle: '' @ formatCycleDates toLocaleDateString cycle \<rparr>"

text \<open>
  The callback \<^verbatim>\<open>async team => { ... }\<close> of the listing: one \<^verbatim>\<open>listCycles\<close> request with
  no options, then the descriptors of the page's nodes.
\<close>

definition team_cycles ::
  "('e, 'w) LinearSDK \<Rightarrow> (string \<Rightarrow> string) \<Rightarrow> Team \<Rightarrow> 'w \<Rightarrow>
     ('e + ResourceDescriptor list) \<times> 'w" where
  "team_cycles client toLocaleDateString team w =
     (case listCycles client (team_id team) \<lparr> first = None, after = None \<rparr> w of
        (Inl e, w') \<Rightarrow> (Inl e, w')
      | (Inr cyclesPage, w') \<Rightarrow>
          (Inr (map (cycle_descriptor toLocaleDateString team) (nodes cyclesPage)), w'))"

text \<open>
  \<^verbatim>\<open>xs.map(async x => ...)\<close> calls the callback on each element in array order, and each
  call runs up to its first \<^verbatim>\<open>await\<close>, which is where the request is issued: the requests
  go out in array order, whatever the order in which they settle. The value of the
  expression is the array of promises, here the array of their eventual outcomes.
\<close>

fun start_all :: "('x \<Rightarrow> 'w \<Rightarrow> 'r \<times> 'w) \<Rightarrow> 'x list \<Rightarrow> 'w \<Rightarrow> 'r list \<times> 'w" where
  "start_all f [] w = ([], w)"
| "start_all f (x # xs) w =
     (case f x w of (p, w1) \<Rightarrow>
        (case start_all f xs w1 of (ps, w2) \<Rightarrow> (p # ps, w2)))"

text \<open>
  The language's \<^verbatim>\<open>Promise.all\<close>. The promises settle in the order \<open>order\<close> (a list of
  indices): a fulfilled promise stores its value in the slot of its index, the first
  rejected one rejects the whole. When every slot is filled the result is the array of the
  slots, in index order. \<open>None\<close>: some promise never settles, and so neither does the whole.
\<close>

fun Promise_all_loop :: "nat list \<Rightarrow> ('e + 'a) list \<Rightarrow> 'a option list \<Rightarrow> ('e + 'a list) option" where
  "Promise_all_loop [] ps slots = map_option Inr (those slots)"
| "Promise_all_loop (i # order) ps slots =
     (if i < length ps then
        (case ps ! i of
           Inl e \<Rightarrow> Some (Inl e)
         | Inr v \<Rightarrow> Promise_all_loop order ps (slots[i := Some v]))
      else Promise_all_loop order ps slots)"

definition Promise_all :: "nat list \<Rightarrow> ('e + 'a) list \<Rightarrow> ('e + 'a list) option" where
  "Promise_all order ps = Promise_all_loop order ps (replicate (length ps) None)"

text \<open>
  The \<^verbatim>\<open>list\<close> callback of the resource \<^verbatim>\<open>cycles\<close> (template \<^verbatim>\<open>linear://cycles\<close>):
  one \<^verbatim>\<open>listTeams()\<close>, the per-team callbacks, \<^verbatim>\<open>Promise.all\<close> and \<^verbatim>\<open>.flat()\<close>.
  \<open>order\<close> is the order in which the per-team promises settle.
\<close>

definition cycles_list ::
  "('e, 'w) LinearSDK \<Rightarrow> (string \<Rightarrow> string) \<Rightarrow> nat list \<Rightarrow> 'w \<Rightarrow>
     ('e + ResourceDescriptor list) option \<times> 'w" where
  "cycles_list client toLocaleDateString order w =
     (case listTeams client \<lparr> first = None, after = None \<rparr> w of
        (Inl e, w1) \<Rightarrow> (Some (Inl e), w1)
      | (Inr teamsPage, w1) \<Rightarrow>
          (case start_all (team_cycles client toLocaleDateString) (nodes teamsPage) w1 of
             (cyclesPromises, w2) \<Rightarrow>
               (case Promise_all order cyclesPromises of
                  None \<Rightarrow> (None, w2)
                | Some (Inl e) \<Rightarrow> (Some (Inl e), w2)
                | Some (Inr allCycles) \<Rightarrow> (Some (Inr (concat allCycles)), w2))))"

subsection \<open>Clients used to state the properties\<close>

text \<open>A read-only SDK whose answers are functions of the request.\<close>

definition deterministic_client ::
  "(PaginationOptions \<Rightarrow> 'e + Team PaginatedResult) \<Rightarrow>
   (PaginationOptions \<Rightarrow> string \<Rightarrow> 'e + Cycle PaginatedResult) \<Rightarrow> ('e, 'w) LinearSDK" where
  "deterministic_client tq cq =
     \<lparr> teams = (\<lambda>options w. (tq options, w)),
       cycles = (\<lambda>options teamId w. (cq options teamId, w)) \<rparr>"

text \<open>A spy around an SDK client, recording the requests it receives, oldest first.\<close>

datatype request = TeamsRequest PaginationOptions | CyclesRequest PaginationOptions string

definition logging_client :: "('e, 'w) LinearSDK \<Rightarrow> ('e, 'w \<times> request list) LinearSDK" where
  "logging_client c =
     \<lparr> teams = (\<lambda>options (w, calls).
         case teams c options w of (r, w') \<Rightarrow> (r, (w', calls @ [TeamsRequest options]))),
       cycles = (\<lambda>options teamId (w, calls).
         case cycles c options teamId w of
           (r, w') \<Rightarrow> (r, (w', calls @ [CyclesRequest options teamId]))) \<rparr>"

text \<open>
  Scenario C of the specification: three teams with two cycles each. Every page reports
  a next page, as a backend holding more teams and more cycles would.
\<close>

definition more_pages :: "PageInfo option" where
  "more_pages = Some \<lparr> hasNextPage = True, endCursor = Some ''next'' \<rparr>"

definition scenarioC_teams :: "PaginationOptions \<Rightarrow> string + Team PaginatedResult" where
  "scenarioC_teams options =
     Inr \<lparr> nodes = [\<lparr> team_id = ''t1'', team_name = ''One'' \<rparr>,
                    \<lparr> team_id = ''t2'', team_name = ''Two'' \<rparr>,
                    \<lparr> team_id = ''t3'', team_name = ''Three'' \<rparr>],
           pageInfo = more_pages \<rparr>"

definition scenarioC_page :: "string \<Rightarrow> Cycle PaginatedResult" where
  "scenarioC_page teamId =
     \<lparr> nodes = [\<lparr> cycle_id = teamId @ ''a'', cycle_name = Some ''A'',
                  startsAt = ''s'', endsAt = ''e'' \<rparr>,
                \<lparr> cycle_id = teamId @ ''b'', cycle_name = None,
                  startsAt = ''s'', endsAt = ''e'' \<rparr>],
       pageInfo = more_pages \<rparr>"

definition scenarioC_cycles :: "PaginationOptions \<Rightarrow> string \<Rightarrow> string + Cycle PaginatedResult" where
  "scenarioC_cycles options teamId = Inr (scenarioC_page teamId)"

section \<open>URI templates\<close>

text \<open>
  Modelled from the spec: the structural match of a URI against a template. The matcher
  belongs to the protocol library (\<^verbatim>\<open>ResourceTemplate\<close>) and is not in the sources; the
  specification says that a match succeeds iff every literal segment of the template
  equals the segment of the URI at the same position and every variable segment consumes
  exactly one non-empty path segment, and that mismatched segment counts never match.
  Segments are the pieces between slashes; a variable segment is written in braces. The
  percent-decoding of a bound value does not bear on whether a match succeeds and is left
  out.
\<close>

datatype segment = Literal string | Variable string

fun split_slash :: "string \<Rightarrow> string list" where
  "split_slash [] = [[]]"
| "split_slash (c # cs) =
     (if c = CHR ''/'' then [] # split_slash cs
      else (case split_slash cs of [] \<Rightarrow> [[c]] | s # ss \<Rightarrow> (c # s) # ss))"

definition parse_segment :: "string \<Rightarrow> segment" where
  "parse_segment s =
     (if 2 \<le> length s \<and> hd s = CHR ''{'' \<and> last s = CHR ''}''
      then Variable (butlast (tl s)) else Literal s)"

fun match_segments :: "segment list \<Rightarrow> string list \<Rightarrow> (string \<times> string) list option" where
  "match_segments [] [] = Some []"
| "match_segments (Literal l # ts) (u # us) = (if l = u then match_segments ts us else None)"
| "match_segments (Variable v # ts) (u # us) =
     (if u = [] then None else map_option ((#) (v, u)) (match_segments ts us))"
| "match_segments _ _ = None"

definition template_match :: "string \<Rightarrow> string \<Rightarrow> (string \<times> string) list option" where
  "template_match template u = match_segments (map parse_segment (split_slash template)) (split_slash u)"

text \<open>
  The four registrations of \<^verbatim>\<open>registerCycleResources\<close>, resource name and template, in
  the order of the calls of \<^verbatim>\<open>server.resource\<close>.
\<close>

definition registerCycleResources :: "(string \<times> string) list" where
  "registerCycleResources =
     [(''cycle'', ''linear://cycles/{id}''),
      (''cycles'', ''linear://cycles''),
      (''cycleIssues'', ''linear://cycles/{cycleId}/issues''),
      (''activeCycles'', ''linear://cycles/active'')]"

text \<open>The names of the registrations whose template matches a URI, in registration
  order; the specification's resolve operation takes the first.\<close>

definition matching_registrations :: "(string \<times> string) list \<Rightarrow> string \<Rightarrow> string list" where
  "matching_registrations regs u =
     map fst (filter (\<lambda>(nm, template). template_match template u \<noteq> None) regs)"

declare fetchAll_loop.simps [code]
declare fetchAllPages_loop.simps [code]

section \<open>Properties of the Paginator\<close>

subsection \<open>One call of \<^verbatim>\<open>nextPage()\<close>\<close>

lemma truthy_iff: "truthy c \<longleftrightarrow> c \<noteq> None \<and> c \<noteq> Some []"
  by (cases c) (simp_all add: truthy_def)

lemma nextPage_exhausted:
  "\<not> hasMore this \<Longrightarrow> nextPage this w = (Inr \<lparr> nodes = [], pageInfo = None \<rparr>, this, w)"
  by (simp add: nextPage_def)

lemma nextPage_rejected:
  "hasMore this \<Longrightarrow>
   fetchPage this \<lparr> first = Some (this_first this), after = currentCursor this \<rparr> w = (Inl e, w') \<Longrightarrow>
   nextPage this w = (Inl e, this, w')"
  by (simp add: nextPage_def)

lemma nextPage_Inl_iff:
  "nextPage this w = (Inl e, this', w') \<longleftrightarrow>
     hasMore this \<and> this' = this \<and>
     fetchPage this \<lparr> first = Some (this_first this), after = currentCursor this \<rparr> w = (Inl e, w')"
  by (auto simp: nextPage_def Let_def split: prod.splits sum.splits)

lemma nth_nextPage_exhausted:
  "\<not> hasMore this \<Longrightarrow> nth_nextPage k this w = (Inr \<lparr> nodes = [], pageInfo = None \<rparr>, this, w)"
  by (induction k) (simp_all add: nextPage_exhausted)

lemma logging_apply:
  "logging fp options (w, calls) = (fst (fp options w), (snd (fp options w), calls @ [options]))"
  by (simp add: logging_def split: prod.splits)

text \<open>
  C3. When \<^verbatim>\<open>hasMore\<close> is false, \<^verbatim>\<open>nextPage()\<close> returns the empty page
  \<^verbatim>\<open>{ nodes: [] }\<close> and leaves the Paginator (cursor, \<^verbatim>\<open>hasMore\<close>, page size) and the
  world unchanged, and so does every further call. The world is what every call of the
  backend passes through, so no call of the backend is made: this holds for every fetch
  operation, the spied ones included, whose every call extends the list of requests.
\<close>

theorem nextPage_noop_after_exhaustion:
  assumes "\<not> hasMore this"
  shows "nextPage this w = (Inr \<lparr> nodes = [], pageInfo = None \<rparr>, this, w)
       \<and> nth_nextPage k this w = (Inr \<lparr> nodes = [], pageInfo = None \<rparr>, this, w)"
  using assms by (simp add: nextPage_exhausted nth_nextPage_exhausted)

text \<open>The Paginator that scenario B leaves behind: a call, and three more, change nothing and
  send nothing.\<close>

theorem nextPage_noop_after_exhaustion_witness:
  "\<not> hasMore exhausted
   \<and> nextPage exhausted ((), []) = (Inr \<lparr> nodes = [], pageInfo = None \<rparr>, exhausted, ((), []))
   \<and> nth_nextPage 3 exhausted ((), []) = (Inr \<lparr> nodes = [], pageInfo = None \<rparr>, exhausted, ((), []))"
proof -
  have h: "\<not> hasMore exhausted" by (simp add: exhausted_def)
  from nextPage_noop_after_exhaustion [OF h, of "((), [])" 3] h show ?thesis by simp
qed

text \<open>
  C9. When the fetch of \<^verbatim>\<open>nextPage()\<close> is rejected, the Paginator after the call is the
  Paginator before it, whatever the fetch operation. For a fetch operation under the spy,
  the failed call has sent the request \<^verbatim>\<open>{ first, after: currentCursor }\<close>, and the next
  call of \<^verbatim>\<open>nextPage()\<close> sends the same request again.
\<close>

theorem nextPage_rejected_keeps_state:
  "(hasMore this \<and>
      fetchPage this \<lparr> first = Some (this_first this), after = currentCursor this \<rparr> w = (Inl e, w')
    \<longrightarrow> nextPage this w = (Inl e, this, w'))
   \<and> (hasMore spied \<and> fetchPage spied = logging fp \<and>
      fp \<lparr> first = Some (this_first spied), after = currentCursor spied \<rparr> v = (Inl e, v1)
    \<longrightarrow> nextPage spied (v, calls) =
          (Inl e, spied,
           (v1, calls @ [\<lparr> first = Some (this_first spied), after = currentCursor spied \<rparr>]))
        \<and> snd (snd (snd (nextPage spied
             (v1, calls @ [\<lparr> first = Some (this_first spied), after = currentCursor spied \<rparr>])))) =
          calls @ [\<lparr> first = Some (this_first spied), after = currentCursor spied \<rparr>,
                   \<lparr> first = Some (this_first spied), after = currentCursor spied \<rparr>])"
proof (intro conjI impI)
  assume "hasMore this \<and>
      fetchPage this \<lparr> first = Some (this_first this), after = currentCursor this \<rparr> w = (Inl e, w')"
  then show "nextPage this w = (Inl e, this, w')"
    by (simp add: nextPage_rejected)
next
  assume H: "hasMore spied \<and> fetchPage spied = logging fp \<and>
      fp \<lparr> first = Some (this_first spied), after = currentCursor spied \<rparr> v = (Inl e, v1)"
  then show "nextPage spied (v, calls) =
          (Inl e, spied,
           (v1, calls @ [\<lparr> first = Some (this_first spied), after = currentCursor spied \<rparr>]))"
    by (simp add: nextPage_def logging_apply)
  from H show "snd (snd (snd (nextPage spied
             (v1, calls @ [\<lparr> first = Some (this_first spied), after = currentCursor spied \<rparr>])))) =
          calls @ [\<lparr> first = Some (this_first spied), after = currentCursor spied \<rparr>,
                   \<lparr> first = Some (this_first spied), after = currentCursor spied \<rparr>]"
    by (simp add: nextPage_def logging_apply Let_def split: prod.splits sum.splits)
qed

text \<open>The backend that rejects every request with a cursor, asked twice for the page
  after \<open>c1\<close>.\<close>

theorem nextPage_rejected_keeps_state_witness:
  "hasMore (new_Paginator (logging (deterministic failing_second)) (Some 1)
              \<lparr> currentCursor := Some ''c1'' \<rparr>
            :: (nat, string, unit \<times> PaginationOptions list) Paginator)
   \<and> nextPage
         (new_Paginator (logging (deterministic failing_second)) (Some 1)
            \<lparr> currentCursor := Some ''c1'' \<rparr>) ((), []) =
       (Inl ''backend down'',
        new_Paginator (logging (deterministic failing_second)) (Some 1)
          \<lparr> currentCursor := Some ''c1'' \<rparr>,
        ((), [\<lparr> first = Some 1, after = Some ''c1'' \<rparr>]))
   \<and> snd (snd (snd (nextPage
         (new_Paginator (logging (deterministic failing_second)) (Some 1)
            \<lparr> currentCursor := Some ''c1'' \<rparr>)
         ((), [\<lparr> first = Some 1, after = Some ''c1'' \<rparr>])))) =
       [\<lparr> first = Some 1, after = Some ''c1'' \<rparr>, \<lparr> first = Some 1, after = Some ''c1'' \<rparr>]"
proof -
  let ?pg = "new_Paginator (logging (deterministic failing_second)) (Some 1)
              \<lparr> currentCursor := Some ''c1'' \<rparr>
            :: (nat, string, unit \<times> PaginationOptions list) Paginator"
  have hm: "hasMore ?pg" by (simp add: new_Paginator_def)
  have fp: "fetchPage ?pg = logging (deterministic failing_second)"
    by (simp add: new_Paginator_def)
  have tf: "this_first ?pg = 1" and cc: "currentCursor ?pg = Some ''c1''"
    by (simp_all add: new_Paginator_def)
  have rj: "deterministic failing_second \<lparr> first = Some 1, after = Some ''c1'' \<rparr> () =
      (Inl ''backend down'', ())"
    by (simp add: deterministic_def failing_second_def)
  have rj': "fetchPage ?pg \<lparr> first = Some 1, after = Some ''c1'' \<rparr> ((), []) =
      (Inl ''backend down'', ((), [\<lparr> first = Some 1, after = Some ''c1'' \<rparr>]))"
    by (simp add: fp logging_apply rj)
  note inst = nextPage_rejected_keeps_state
      [of ?pg "((), [])" "''backend down''" "((), [\<lparr> first = Some 1, after = Some ''c1'' \<rparr>])"
          ?pg "deterministic failing_second" "()" "()" "[]", unfolded tf cc]
  from inst hm rj'
  have a: "nextPage ?pg ((), []) =
      (Inl ''backend down'', ?pg, ((), [\<lparr> first = Some 1, after = Some ''c1'' \<rparr>]))"
    by blast
  from inst hm fp rj
  have b: "snd (snd (snd (nextPage ?pg ((), [\<lparr> first = Some 1, after = Some ''c1'' \<rparr>])))) =
       [\<lparr> first = Some 1, after = Some ''c1'' \<rparr>, \<lparr> first = Some 1, after = Some ''c1'' \<rparr>]"
    by simp
  show ?thesis by (intro conjI) (fact hm a b)+
qed

subsection \<open>The loop of \<^verbatim>\<open>fetchAll()\<close>\<close>

lemma nextPage_fields:
  "nextPage this w = (r, this', w') \<Longrightarrow>
   fetchPage this' = fetchPage this \<and> this_first this' = this_first this"
  by (auto simp: nextPage_def Let_def split: if_splits prod.splits sum.splits option.splits)

lemma nextPage_hasMore_after:
  "nextPage this w = (Inr P, this', w') \<Longrightarrow> hasMore this \<Longrightarrow>
   hasMore this' \<longleftrightarrow> \<not> page_ends_traversal (this_first this) P"
  by (auto simp: nextPage_def Let_def page_ends_traversal_def truthy_iff
      split: if_splits prod.splits sum.splits option.splits)

lemma fetchAll_loop_done:
  "\<not> hasMore this \<Longrightarrow> fetchAll_loop this w acc = Some (Inr acc, this, w)"
  by (subst fetchAll_loop.simps) simp

lemma fetchAll_loop_throw:
  "hasMore this \<Longrightarrow> nextPage this w = (Inl e, this', w') \<Longrightarrow>
   fetchAll_loop this w acc = Some (Inl e, this', w')"
  by (subst fetchAll_loop.simps) simp

lemma fetchAll_loop_step:
  "hasMore this \<Longrightarrow> nextPage this w = (Inr P, this', w') \<Longrightarrow>
   fetchAll_loop this w acc = fetchAll_loop this' w' (acc @ nodes P)"
  by (subst fetchAll_loop.simps) simp

lemma empty_page_ends_loop:
  "ends_loop n (Inr \<lparr> nodes = [], pageInfo = None \<rparr>)"
  by (simp add: ends_loop_def page_ends_traversal_def)

lemma not_ends_loop_0:
  assumes "\<not> ends_loop (this_first this) (fst (nextPage this w))"
  obtains P this' w' where "hasMore this" "nextPage this w = (Inr P, this', w')" "hasMore this'"
proof -
  have hm: "hasMore this"
    using assms empty_page_ends_loop by (cases "hasMore this") (auto simp: nextPage_exhausted)
  obtain r this' w' where np: "nextPage this w = (r, this', w')"
    by (cases "nextPage this w") auto
  with assms obtain P where r: "r = Inr P" and "\<not> page_ends_traversal (this_first this) P"
    by (cases r) (auto simp: ends_loop_def)
  with nextPage_hasMore_after[of this w P this' w'] np hm have "hasMore this'" by simp
  with hm np r that show thesis by blast
qed

lemma fetchAll_loop_propagates:
  assumes "\<forall>j<k. \<not> ends_loop (this_first this) (fst (nth_nextPage j this w))"
    and "nth_nextPage k this w = (Inl e, this', w')"
  shows "fetchAll_loop this w acc = Some (Inl e, this', w')"
  using assms
proof (induction k arbitrary: this w acc)
  case 0
  then have "nextPage this w = (Inl e, this', w')" by simp
  then show ?case by (simp add: nextPage_Inl_iff fetchAll_loop_throw)
next
  case (Suc k)
  from Suc.prems(1) have "\<not> ends_loop (this_first this) (fst (nextPage this w))"
    by (metis nth_nextPage.simps(1) zero_less_Suc)
  then obtain P this1 w1 where hm: "hasMore this"
    and np: "nextPage this w = (Inr P, this1, w1)" by (rule not_ends_loop_0)
  have f: "this_first this1 = this_first this" using nextPage_fields[OF np] by simp
  have "\<forall>j<k. \<not> ends_loop (this_first this1) (fst (nth_nextPage j this1 w1))"
  proof (intro allI impI)
    fix j assume "j < k"
    then have "Suc j < Suc k" by simp
    with Suc.prems(1) have "\<not> ends_loop (this_first this) (fst (nth_nextPage (Suc j) this w))"
      by blast
    then show "\<not> ends_loop (this_first this1) (fst (nth_nextPage j this1 w1))"
      by (simp add: np f)
  qed
  moreover have "nth_nextPage k this1 w1 = (Inl e, this', w')"
    using Suc.prems(2) by (simp add: np)
  ultimately have "fetchAll_loop this1 w1 (acc @ nodes P) = Some (Inl e, this', w')"
    by (rule Suc.IH)
  then show ?case by (simp add: fetchAll_loop_step[OF hm np])
qed

text \<open>
  C8. \<^verbatim>\<open>nextPage()\<close> throws \<open>e\<close> exactly when its fetch is rejected with \<open>e\<close>, and the
  Paginator is then as before the call. When the first \<open>k\<close> calls of \<^verbatim>\<open>nextPage()\<close> made
  by \<^verbatim>\<open>fetchAll()\<close> go on with the traversal and the next one throws \<open>e\<close>, \<^verbatim>\<open>fetchAll()\<close>
  throws the same \<open>e\<close>, in the state and the world that the failed call left: the error is
  neither replaced nor swallowed, and no further request follows it.
\<close>

theorem backend_error_propagates:
  "(nextPage this w = (Inl e, this', w') \<longleftrightarrow>
      hasMore this \<and> this' = this \<and>
      fetchPage this \<lparr> first = Some (this_first this), after = currentCursor this \<rparr> w = (Inl e, w'))
   \<and> ((\<forall>j<k. \<not> ends_loop (this_first this) (fst (nth_nextPage j this w))) \<and>
        nth_nextPage k this w = (Inl e, this', w') \<longrightarrow>
        fetchAll this w = Some (Inl e, this', w'))"
proof (intro conjI impI)
  show "nextPage this w = (Inl e, this', w') \<longleftrightarrow>
      hasMore this \<and> this' = this \<and>
      fetchPage this \<lparr> first = Some (this_first this), after = currentCursor this \<rparr> w = (Inl e, w')"
    by (rule nextPage_Inl_iff)
next
  assume H: "(\<forall>j<k. \<not> ends_loop (this_first this) (fst (nth_nextPage j this w))) \<and>
        nth_nextPage k this w = (Inl e, this', w')"
  from H have a: "\<forall>j<k. \<not> ends_loop (this_first this) (fst (nth_nextPage j this w))"
    by (rule conjunct1)
  from H have b: "nth_nextPage k this w = (Inl e, this', w')"
    by (rule conjunct2)
  show "fetchAll this w = Some (Inl e, this', w')"
    unfolding fetchAll_def by (rule fetchAll_loop_propagates[OF a b])
qed

text \<open>A backend whose second page fails: the first call goes on with the traversal, the
  second throws, and \<^verbatim>\<open>fetchAll()\<close> throws the same error after two requests.\<close>

theorem backend_error_propagates_witness:
  "\<not> ends_loop 1 (fst (nth_nextPage 0
        (new_Paginator (logging (deterministic failing_second)) (Some 1)) ((), [])))
   \<and> nth_nextPage 1 (new_Paginator (logging (deterministic failing_second)) (Some 1)) ((), []) =
       (Inl ''backend down'',
        new_Paginator (logging (deterministic failing_second)) (Some 1)
          \<lparr> currentCursor := Some ''c1'' \<rparr>,
        ((), [\<lparr> first = Some 1, after = None \<rparr>, \<lparr> first = Some 1, after = Some ''c1'' \<rparr>]))
   \<and> fetchAll (new_Paginator (logging (deterministic failing_second)) (Some 1)) ((), []) =
       Some (Inl ''backend down'',
             new_Paginator (logging (deterministic failing_second)) (Some 1)
               \<lparr> currentCursor := Some ''c1'' \<rparr>,
             ((), [\<lparr> first = Some 1, after = None \<rparr>, \<lparr> first = Some 1, after = Some ''c1'' \<rparr>]))"
proof -
  let ?pg = "new_Paginator (logging (deterministic failing_second)) (Some 1)"
  have tf: "this_first ?pg = 1" by (simp add: new_Paginator_def)
  have a: "\<forall>j<1. \<not> ends_loop 1 (fst (nth_nextPage j ?pg ((), [])))"
    by (simp add: new_Paginator_def nextPage_def logging_apply deterministic_def
        failing_second_def truthy_def Let_def ends_loop_def page_ends_traversal_def)
  have b: "nth_nextPage 1 ?pg ((), []) =
      (Inl ''backend down'', ?pg \<lparr> currentCursor := Some ''c1'' \<rparr>,
       ((), [\<lparr> first = Some 1, after = None \<rparr>, \<lparr> first = Some 1, after = Some ''c1'' \<rparr>]))"
    by (simp add: new_Paginator_def nextPage_def logging_apply deterministic_def
        failing_second_def truthy_def Let_def)
  from backend_error_propagates [of ?pg "((), [])" "''backend down''"
         "?pg \<lparr> currentCursor := Some ''c1'' \<rparr>"
         "((), [\<lparr> first = Some 1, after = None \<rparr>, \<lparr> first = Some 1, after = Some ''c1'' \<rparr>])" 1,
         unfolded tf]
       a b
  have "fetchAll ?pg ((), []) =
      Some (Inl ''backend down'', ?pg \<lparr> currentCursor := Some ''c1'' \<rparr>,
       ((), [\<lparr> first = Some 1, after = None \<rparr>, \<lparr> first = Some 1, after = Some ''c1'' \<rparr>]))"
    by blast
  moreover from a have "\<not> ends_loop 1 (fst (nth_nextPage 0 ?pg ((), [])))" by blast
  ultimately show ?thesis using b by blast
qed

subsection \<open>The cursor state after a fetched page\<close>

lemma nextPage_fulfilled:
  assumes "hasMore this"
    and "fetchPage this \<lparr> first = Some (this_first this), after = currentCursor this \<rparr> w = (Inr P, w')"
  shows "nextPage this w =
    (Inr P,
     this \<lparr> currentCursor :=
              (case pageInfo P of
                 None \<Rightarrow> currentCursor this
               | Some pi \<Rightarrow>
                   if hasNextPage pi \<and> truthy (endCursor pi) then endCursor pi
                   else currentCursor this),
            hasMore := \<not> page_ends_traversal (this_first this) P \<rparr>,
     w')"
  using assms
  by (cases "pageInfo P") (auto simp: nextPage_def Let_def page_ends_traversal_def truthy_iff)

lemma fetchAllPages_loop_done:
  "fetchAllPages_loop fp n w acc False cur = Some (Inr acc, w)"
  by (subst fetchAllPages_loop.simps) simp

lemma fetchAllPages_loop_throw:
  "fp \<lparr> first = Some n, after = cur \<rparr> w = (Inl e, w') \<Longrightarrow>
   fetchAllPages_loop fp n w acc True cur = Some (Inl e, w')"
  by (subst fetchAllPages_loop.simps) simp

lemma fetchAllPages_loop_step:
  assumes "fp \<lparr> first = Some n, after = cur \<rparr> w = (Inr P, w')"
  shows "fetchAllPages_loop fp n w acc True cur =
     fetchAllPages_loop fp n w' (acc @ nodes P) (\<not> page_ends_traversal n P)
       (case pageInfo P of
          None \<Rightarrow> cur
        | Some pi \<Rightarrow> if hasNextPage pi \<and> truthy (endCursor pi) then endCursor pi else cur)"
  using assms
  by (subst fetchAllPages_loop.simps, cases "pageInfo P")
     (auto simp: Let_def page_ends_traversal_def truthy_iff)

text \<open>The two loops agree.\<close>

lemma loops_agree_forth_step:
  fixes loop :: "('a, 'e, 'w) Paginator \<Rightarrow> 'w \<Rightarrow> 'a list \<Rightarrow>
     (('e + 'a list) \<times> ('a, 'e, 'w) Paginator \<times> 'w) option"
  assumes IH: "\<And>this w acc y. loop this w acc = Some y \<Longrightarrow>
       fetchAllPages_loop (fetchPage this) (this_first this) w acc (hasMore this) (currentCursor this)
         = Some (fst y, snd (snd y))"
    and body: "(if hasMore this then
        (case nextPage this w of
           (Inl e, this', w') \<Rightarrow> Some (Inl e, this', w')
         | (Inr result, this', w') \<Rightarrow> loop this' w' (acc @ nodes result))
      else Some (Inr acc, this, w)) = Some y"
  shows "fetchAllPages_loop (fetchPage this) (this_first this) w acc (hasMore this) (currentCursor this)
         = Some (fst y, snd (snd y))"
proof (cases "hasMore this")
  case False
  with body show ?thesis by (auto simp: fetchAllPages_loop_done)
next
  case True
  let ?req = "\<lparr> first = Some (this_first this), after = currentCursor this \<rparr>"
  obtain r w' where fp: "fetchPage this ?req w = (r, w')"
    by (cases "fetchPage this ?req w") auto
  show ?thesis
  proof (cases r)
    case (Inl e)
    with fp True have "nextPage this w = (Inl e, this, w')" by (simp add: nextPage_rejected)
    with body True have "y = (Inl e, this, w')" by simp
    with fp Inl True show ?thesis by (simp add: fetchAllPages_loop_throw)
  next
    case (Inr P)
    with fp have fp': "fetchPage this ?req w = (Inr P, w')" by simp
    note np = nextPage_fulfilled[OF True fp']
    from body True have "loop (fst (snd (nextPage this w))) w' (acc @ nodes P) = Some y"
      by (simp add: np)
    from IH[OF this] show ?thesis
      by (simp add: np True
          fetchAllPages_loop_step[where fp = "fetchPage this" and n = "this_first this"
            and cur = "currentCursor this" and w = w, OF fp'])
  qed
qed

lemma loops_agree_forth:
  assumes "fetchAll_loop this w acc = Some y"
  shows "fetchAllPages_loop (fetchPage this) (this_first this) w acc (hasMore this) (currentCursor this)
         = Some (fst y, snd (snd y))"
  by (rule fetchAll_loop.raw_induct
        [where P = "\<lambda>this w acc y.
            fetchAllPages_loop (fetchPage this) (this_first this) w acc (hasMore this) (currentCursor this)
              = Some (fst y, snd (snd y))",
         OF _ assms])
     (rule loops_agree_forth_step)


lemma loops_agree_back_step:
  fixes loop :: "('a, 'e, 'w) PageFetcher \<Rightarrow> int \<Rightarrow> 'w \<Rightarrow> 'a list \<Rightarrow> bool \<Rightarrow> string option \<Rightarrow>
     (('e + 'a list) \<times> 'w) option"
  assumes IH: "\<And>fp n w acc hasNext cur y. loop fp n w acc hasNext cur = Some y \<Longrightarrow>
      \<exists>this'. fetchAll_loop
         \<lparr> fetchPage = fp, this_first = n, currentCursor = cur, hasMore = hasNext \<rparr> w acc
         = Some (fst y, this', snd y)"
    and body: "(if hasNext then
        (case fp \<lparr> first = Some n, after = cur \<rparr> w of
           (Inl e, w') \<Rightarrow> Some (Inl e, w')
         | (Inr result, w') \<Rightarrow>
             (let (hasNext1, cur1) =
                    (case pageInfo result of
                       None \<Rightarrow> (False, cur)
                     | Some pi \<Rightarrow>
                         if \<not> hasNextPage pi \<or> \<not> truthy (endCursor pi)
                         then (False, cur)
                         else (hasNext, endCursor pi));
                  hasNext2 = (if int (length (nodes result)) < n then False else hasNext1)
              in loop fp n w' (acc @ nodes result) hasNext2 cur1))
      else Some (Inr acc, w)) = Some y"
  shows "\<exists>this'. fetchAll_loop
         \<lparr> fetchPage = fp, this_first = n, currentCursor = cur, hasMore = hasNext \<rparr> w acc
         = Some (fst y, this', snd y)"
proof (cases hasNext)
  case False
  with body show ?thesis by (auto simp: fetchAll_loop_done)
next
  case True
  let ?pg = "\<lparr> fetchPage = fp, this_first = n, currentCursor = cur, hasMore = hasNext \<rparr>"
  obtain r w' where fp: "fp \<lparr> first = Some n, after = cur \<rparr> w = (r, w')"
    by (cases "fp \<lparr> first = Some n, after = cur \<rparr> w") auto
  show ?thesis
  proof (cases r)
    case (Inl e)
    with fp True have "nextPage ?pg w = (Inl e, ?pg, w')" by (simp add: nextPage_rejected)
    moreover from body True fp Inl have "y = (Inl e, w')" by simp
    ultimately show ?thesis using True by (auto simp: fetchAll_loop_throw)
  next
    case (Inr P)
    let ?cur1 = "case pageInfo P of
          None \<Rightarrow> cur
        | Some pi \<Rightarrow> if hasNextPage pi \<and> truthy (endCursor pi) then endCursor pi else cur"
    from fp Inr True have np: "nextPage ?pg w =
        (Inr P, \<lparr> fetchPage = fp, this_first = n, currentCursor = ?cur1,
                  hasMore = \<not> page_ends_traversal n P \<rparr>, w')"
      using nextPage_fulfilled[of ?pg w P w'] by (simp split: option.splits)
    from body True fp Inr
    have "loop fp n w' (acc @ nodes P) (\<not> page_ends_traversal n P) ?cur1 = Some y"
      by (cases "pageInfo P")
         (auto simp: Let_def page_ends_traversal_def truthy_iff split: if_splits)
    from IH[OF this] obtain this' where
      "fetchAll_loop \<lparr> fetchPage = fp, this_first = n, currentCursor = ?cur1,
                  hasMore = \<not> page_ends_traversal n P \<rparr> w' (acc @ nodes P)
         = Some (fst y, this', snd y)" by blast
    moreover have "hasMore ?pg" using True by simp
    ultimately have "fetchAll_loop ?pg w acc = Some (fst y, this', snd y)"
      using fetchAll_loop_step[of ?pg w P _ w' acc] np by simp
    then show ?thesis by blast
  qed
qed

lemma loops_agree_back:
  assumes "fetchAllPages_loop fp n w acc hasNext cur = Some y"
  shows "\<exists>this'. fetchAll_loop
         \<lparr> fetchPage = fp, this_first = n, currentCursor = cur, hasMore = hasNext \<rparr> w acc
         = Some (fst y, this', snd y)"
  by (rule fetchAllPages_loop.raw_induct
        [where P = "\<lambda>fp n w acc hasNext cur y. \<exists>this'. fetchAll_loop
         \<lparr> fetchPage = fp, this_first = n, currentCursor = cur, hasMore = hasNext \<rparr> w acc
         = Some (fst y, this', snd y)",
         OF _ assms])
     (rule loops_agree_back_step)

lemma loops_agree:
  "fetchAllPages_loop fp n w acc hasNext cur =
     map_option (\<lambda>(r, this', w'). (r, w'))
       (fetchAll_loop \<lparr> fetchPage = fp, this_first = n, currentCursor = cur, hasMore = hasNext \<rparr> w acc)"
proof (cases "fetchAll_loop \<lparr> fetchPage = fp, this_first = n, currentCursor = cur, hasMore = hasNext \<rparr> w acc")
  case None
  show ?thesis
  proof (cases "fetchAllPages_loop fp n w acc hasNext cur")
    case None': None
    with None show ?thesis by simp
  next
    case (Some y)
    from loops_agree_back[OF this] None show ?thesis by simp
  qed
next
  case (Some y)
  from loops_agree_forth[OF this] Some show ?thesis by (simp add: case_prod_beta)
qed


lemma scenarioB_pages:
  "scenarioB \<lparr> first = Some 50, after = None \<rparr> =
     Inr \<lparr> nodes = [0..<50], pageInfo = Some \<lparr> hasNextPage = True, endCursor = Some ''c1'' \<rparr> \<rparr>"
  "scenarioB \<lparr> first = Some 50, after = Some ''c1'' \<rparr> =
     Inr \<lparr> nodes = [50..<62], pageInfo = Some \<lparr> hasNextPage = True, endCursor = Some ''c2'' \<rparr> \<rparr>"
  by (simp_all add: scenarioB_def)

lemma scenarioB_items: "[0..<50] @ [50..<62] = [0..<62]"
  using upt_add_eq_append[of 0 50 12] by (simp del: upt_rec_numeral)

lemma scenarioB_nextPage_1:
  "nextPage (new_Paginator (logging (deterministic scenarioB)) (Some 50)) ((), []) =
     (Inr \<lparr> nodes = [0..<50], pageInfo = Some \<lparr> hasNextPage = True, endCursor = Some ''c1'' \<rparr> \<rparr>,
      new_Paginator (logging (deterministic scenarioB)) (Some 50) \<lparr> currentCursor := Some ''c1'' \<rparr>,
      ((), [\<lparr> first = Some 50, after = None \<rparr>]))"
  by (simp add: nextPage_def new_Paginator_def logging_apply deterministic_def scenarioB_pages
      truthy_def Let_def)

lemma scenarioB_nextPage_2:
  "nextPage (new_Paginator (logging (deterministic scenarioB)) (Some 50) \<lparr> currentCursor := Some ''c1'' \<rparr>)
       ((), [\<lparr> first = Some 50, after = None \<rparr>]) =
     (Inr \<lparr> nodes = [50..<62], pageInfo = Some \<lparr> hasNextPage = True, endCursor = Some ''c2'' \<rparr> \<rparr>,
      exhausted,
      ((), [\<lparr> first = Some 50, after = None \<rparr>, \<lparr> first = Some 50, after = Some ''c1'' \<rparr>]))"
  by (simp add: nextPage_def new_Paginator_def logging_apply deterministic_def scenarioB_pages
      truthy_def Let_def exhausted_def)

lemma scenarioB_fetchAll:
  "fetchAll (new_Paginator (logging (deterministic scenarioB)) (Some 50)) ((), []) =
     Some (Inr [0..<62], exhausted,
           ((), [\<lparr> first = Some 50, after = None \<rparr>, \<lparr> first = Some 50, after = Some ''c1'' \<rparr>]))"
proof -
  have h1: "hasMore (new_Paginator (logging (deterministic scenarioB)) (Some 50))"
    by (simp add: new_Paginator_def)
  have h2: "hasMore (new_Paginator (logging (deterministic scenarioB)) (Some 50)
               \<lparr> currentCursor := Some ''c1'' \<rparr>)"
    by (simp add: new_Paginator_def)
  have h3: "\<not> hasMore exhausted" by (simp add: exhausted_def)
  show ?thesis
    unfolding fetchAll_def
    by (simp add: fetchAll_loop_step[OF h1 scenarioB_nextPage_1]
        fetchAll_loop_step[OF h2 scenarioB_nextPage_2] fetchAll_loop_done[OF h3]
        scenarioB_items del: upt_rec_numeral)
qed


text \<open>
  C1 (amended). When the fetch of \<^verbatim>\<open>nextPage()\<close> fulfils with a page \<open>P\<close>, the call
  returns \<open>P\<close>, and \<^verbatim>\<open>hasMore\<close> is false afterwards iff \<open>P\<close> has no \<^verbatim>\<open>pageInfo\<close>, or
  \<^verbatim>\<open>hasNextPage\<close> is false, or \<^verbatim>\<open>endCursor\<close> is \<^verbatim>\<open>null\<close> or the empty string, or \<open>P\<close> has
  fewer nodes than the page size; otherwise the cursor is the end cursor of \<open>P\<close>. An
  iteration of the loop of \<^verbatim>\<open>fetchAllPages\<close> sets its flag and its cursor in the same
  way. In scenario B, \<^verbatim>\<open>fetchAll()\<close> with page size 50 sends two requests, the second
  after \<open>c1\<close>, and returns the 62 items.
\<close>

theorem nextPage_updates_cursor_state:
  "(hasMore this \<and>
      fetchPage this \<lparr> first = Some (this_first this), after = currentCursor this \<rparr> w = (Inr P, w')
    \<longrightarrow> (\<exists>this'. nextPage this w = (Inr P, this', w')
          \<and> (\<not> hasMore this' \<longleftrightarrow> page_ends_traversal (this_first this) P)
          \<and> (hasMore this' \<longrightarrow> map_option endCursor (pageInfo P) = Some (currentCursor this'))))
   \<and> (fp \<lparr> first = Some n, after = cur \<rparr> w = (Inr P, w')
    \<longrightarrow> (\<exists>cur'. fetchAllPages_loop fp n w acc True cur =
                 fetchAllPages_loop fp n w' (acc @ nodes P) (\<not> page_ends_traversal n P) cur'
          \<and> (\<not> page_ends_traversal n P \<longrightarrow> map_option endCursor (pageInfo P) = Some cur')))
   \<and> fetchAll (new_Paginator (logging (deterministic scenarioB)) (Some 50)) ((), []) =
       Some (Inr [0..<62], exhausted,
             ((), [\<lparr> first = Some 50, after = None \<rparr>, \<lparr> first = Some 50, after = Some ''c1'' \<rparr>]))
   \<and> length [0..<62::nat] = 62"
proof (intro conjI impI)
  assume H: "hasMore this \<and>
      fetchPage this \<lparr> first = Some (this_first this), after = currentCursor this \<rparr> w = (Inr P, w')"
  then have hm: "hasMore this" and
    fp: "fetchPage this \<lparr> first = Some (this_first this), after = currentCursor this \<rparr> w = (Inr P, w')"
    by blast+
  let ?this' = "this \<lparr> currentCursor :=
              (case pageInfo P of
                 None \<Rightarrow> currentCursor this
               | Some pi \<Rightarrow>
                   if hasNextPage pi \<and> truthy (endCursor pi) then endCursor pi
                   else currentCursor this),
            hasMore := \<not> page_ends_traversal (this_first this) P \<rparr>"
  have "nextPage this w = (Inr P, ?this', w')" by (rule nextPage_fulfilled[OF hm fp])
  moreover have "\<not> hasMore ?this' \<longleftrightarrow> page_ends_traversal (this_first this) P" by simp
  moreover have "hasMore ?this' \<longrightarrow> map_option endCursor (pageInfo P) = Some (currentCursor ?this')"
    by (cases "pageInfo P") (auto simp: page_ends_traversal_def truthy_iff)
  ultimately show "\<exists>this'. nextPage this w = (Inr P, this', w')
          \<and> (\<not> hasMore this' \<longleftrightarrow> page_ends_traversal (this_first this) P)
          \<and> (hasMore this' \<longrightarrow> map_option endCursor (pageInfo P) = Some (currentCursor this'))"
    by blast
next
  assume fp: "fp \<lparr> first = Some n, after = cur \<rparr> w = (Inr P, w')"
  let ?cur' = "case pageInfo P of
          None \<Rightarrow> cur
        | Some pi \<Rightarrow> if hasNextPage pi \<and> truthy (endCursor pi) then endCursor pi else cur"
  have "fetchAllPages_loop fp n w acc True cur =
     fetchAllPages_loop fp n w' (acc @ nodes P) (\<not> page_ends_traversal n P) ?cur'"
    by (rule fetchAllPages_loop_step[where fp = fp, OF fp])
  moreover have "\<not> page_ends_traversal n P \<longrightarrow> map_option endCursor (pageInfo P) = Some ?cur'"
    by (cases "pageInfo P") (auto simp: page_ends_traversal_def truthy_iff)
  ultimately show "\<exists>cur'. fetchAllPages_loop fp n w acc True cur =
                 fetchAllPages_loop fp n w' (acc @ nodes P) (\<not> page_ends_traversal n P) cur'
          \<and> (\<not> page_ends_traversal n P \<longrightarrow> map_option endCursor (pageInfo P) = Some cur')"
    by blast
next
  show "fetchAll (new_Paginator (logging (deterministic scenarioB)) (Some 50)) ((), []) =
       Some (Inr [0..<62], exhausted,
             ((), [\<lparr> first = Some 50, after = None \<rparr>, \<lparr> first = Some 50, after = Some ''c1'' \<rparr>]))"
    by (rule scenarioB_fetchAll)
next
  show "length [0..<62::nat] = 62" by simp
qed


text \<open>The second page of scenario B, twelve nodes under a page size of 50 with metadata that
  reports a next page: it ends the traversal, in \<^verbatim>\<open>nextPage()\<close> and in the loop of
  \<^verbatim>\<open>fetchAllPages\<close>.\<close>

theorem nextPage_updates_cursor_state_witness:
  "hasMore (new_Paginator (deterministic scenarioB) (Some 50) \<lparr> currentCursor := Some ''c1'' \<rparr>
             :: (nat, string, unit) Paginator)
   \<and> fetchPage (new_Paginator (deterministic scenarioB) (Some 50) \<lparr> currentCursor := Some ''c1'' \<rparr>)
         \<lparr> first = Some 50, after = Some ''c1'' \<rparr> () =
       (Inr \<lparr> nodes = [50..<62],
              pageInfo = Some \<lparr> hasNextPage = True, endCursor = Some ''c2'' \<rparr> \<rparr>, ())
   \<and> page_ends_traversal 50
         \<lparr> nodes = [50..<62::nat],
           pageInfo = Some \<lparr> hasNextPage = True, endCursor = Some ''c2'' \<rparr> \<rparr>
   \<and> \<not> hasMore (fst (snd (nextPage
         (new_Paginator (deterministic scenarioB) (Some 50) \<lparr> currentCursor := Some ''c1'' \<rparr>) ())))
   \<and> fetchAllPages_loop (deterministic scenarioB) 50 () [0..<50] True (Some ''c1'') =
       Some (Inr ([0..<50] @ [50..<62]), ())"
proof -
  let ?pg = "new_Paginator (deterministic scenarioB) (Some 50) \<lparr> currentCursor := Some ''c1'' \<rparr>
               :: (nat, string, unit) Paginator"
  let ?P = "\<lparr> nodes = [50..<62::nat],
             pageInfo = Some \<lparr> hasNextPage = True, endCursor = Some ''c2'' \<rparr> \<rparr>"
  have hm: "hasMore ?pg" by (simp add: new_Paginator_def)
  have tf: "this_first ?pg = 50" and cc: "currentCursor ?pg = Some ''c1''"
    by (simp_all add: new_Paginator_def)
  have fp: "fetchPage ?pg \<lparr> first = Some 50, after = Some ''c1'' \<rparr> () = (Inr ?P, ())"
    by (simp add: new_Paginator_def deterministic_def scenarioB_pages)
  have fp': "deterministic scenarioB \<lparr> first = Some 50, after = Some ''c1'' \<rparr> () = (Inr ?P, ())"
    by (simp add: deterministic_def scenarioB_pages)
  have short: "page_ends_traversal 50 ?P" by (simp add: page_ends_traversal_def)
  note inst = nextPage_updates_cursor_state
      [of ?pg "()" ?P "()" "deterministic scenarioB" 50 "Some ''c1''" "[0..<50]", unfolded tf cc]
  from inst hm fp short have nh: "\<not> hasMore (fst (snd (nextPage ?pg ())))" by auto
  from inst fp' short
  have fl: "fetchAllPages_loop (deterministic scenarioB) 50 () [0..<50] True (Some ''c1'') =
       Some (Inr ([0..<50] @ [50..<62]), ())"
    by (auto simp: fetchAllPages_loop_done simp del: upt_rec_numeral)
  show ?thesis by (intro conjI) (fact hm fp short nh fl)+
qed

text \<open>With an absent end cursor as the only condition on the cursor, the equivalence fails:
  a page that is full, has \<^verbatim>\<open>pageInfo\<close>, reports a next page and carries the empty string
  as end cursor sets \<^verbatim>\<open>hasMore\<close> to false.\<close>

theorem empty_end_cursor_counterexample:
  "fst (nextPage (new_Paginator (deterministic empty_cursor_backend) (Some 1)) ()) =
     Inr empty_cursor_page
   \<and> \<not> hasMore (fst (snd (nextPage (new_Paginator (deterministic empty_cursor_backend) (Some 1)) ())))
   \<and> pageInfo empty_cursor_page \<noteq> None
   \<and> map_option hasNextPage (pageInfo empty_cursor_page) = Some True
   \<and> map_option endCursor (pageInfo empty_cursor_page) = Some (Some [])
   \<and> \<not> int (length (nodes empty_cursor_page)) < 1"
  by (simp add: nextPage_def new_Paginator_def deterministic_def empty_cursor_backend_def
      empty_cursor_page_def truthy_def Let_def)

subsection \<open>Termination of \<^verbatim>\<open>fetchAll()\<close>\<close>

lemma fetchAll_loop_returns:
  "ends_loop (this_first this) (fst (nth_nextPage k this w)) \<Longrightarrow>
   \<exists>r. fetchAll_loop this w acc = Some r"
proof (induction k arbitrary: this w acc)
  case 0
  show ?case
  proof (cases "hasMore this")
    case False
    then show ?thesis by (simp add: fetchAll_loop_done)
  next
    case True
    obtain r this' w' where np: "nextPage this w = (r, this', w')"
      by (cases "nextPage this w") auto
    show ?thesis
    proof (cases r)
      case (Inl e)
      with True np show ?thesis by (simp add: fetchAll_loop_throw)
    next
      case (Inr P)
      with 0 np have "page_ends_traversal (this_first this) P" by (simp add: ends_loop_def)
      with nextPage_hasMore_after[of this w P this' w'] np Inr True have "\<not> hasMore this'"
        by simp
      with True np Inr show ?thesis by (simp add: fetchAll_loop_step fetchAll_loop_done)
    qed
  qed
next
  case (Suc k)
  show ?case
  proof (cases "hasMore this")
    case False
    then show ?thesis by (simp add: fetchAll_loop_done)
  next
    case True
    obtain r this' w' where np: "nextPage this w = (r, this', w')"
      by (cases "nextPage this w") auto
    show ?thesis
    proof (cases r)
      case (Inl e)
      with True np show ?thesis by (simp add: fetchAll_loop_throw)
    next
      case (Inr P)
      from nextPage_fields[OF np] have f: "this_first this' = this_first this" by simp
      from Suc.prems np have "ends_loop (this_first this') (fst (nth_nextPage k this' w'))"
        by (simp add: f)
      from Suc.IH[OF this] obtain r' where
        "fetchAll_loop this' w' (acc @ nodes P) = Some r'" by blast
      moreover from True np Inr
      have "fetchAll_loop this w acc = fetchAll_loop this' w' (acc @ nodes P)"
        by (simp add: fetchAll_loop_step)
      ultimately show ?thesis by (intro exI[of _ r']) simp
    qed
  qed
qed

lemma fetchAll_loop_halts_step:
  fixes loop :: "('a, 'e, 'w) Paginator \<Rightarrow> 'w \<Rightarrow> 'a list \<Rightarrow>
     (('e + 'a list) \<times> ('a, 'e, 'w) Paginator \<times> 'w) option"
  assumes IH: "\<And>this w acc r. loop this w acc = Some r \<Longrightarrow>
                 \<exists>k. ends_loop (this_first this) (fst (nth_nextPage k this w))"
    and body: "(if hasMore this then
        (case nextPage this w of
           (Inl e, this', w') \<Rightarrow> Some (Inl e, this', w')
         | (Inr result, this', w') \<Rightarrow> loop this' w' (acc @ nodes result))
      else Some (Inr acc, this, w)) = Some r"
  shows "\<exists>k. ends_loop (this_first this) (fst (nth_nextPage k this w))"
proof (cases "hasMore this")
  case False
  then have "ends_loop (this_first this) (fst (nth_nextPage 0 this w))"
    by (simp add: nextPage_exhausted empty_page_ends_loop)
  then show ?thesis by blast
next
  case True
  obtain r0 this' w' where np: "nextPage this w = (r0, this', w')"
    by (cases "nextPage this w") auto
  show ?thesis
  proof (cases r0)
    case (Inl e)
    with np have "ends_loop (this_first this) (fst (nth_nextPage 0 this w))"
      by (simp add: ends_loop_def)
    then show ?thesis by blast
  next
    case (Inr P)
    with body True np have "loop this' w' (acc @ nodes P) = Some r" by simp
    from IH[OF this] obtain k
      where "ends_loop (this_first this') (fst (nth_nextPage k this' w'))" by blast
    with nextPage_fields[OF np] np
    have "ends_loop (this_first this) (fst (nth_nextPage (Suc k) this w))" by simp
    then show ?thesis by blast
  qed
qed

lemma fetchAll_loop_halts:
  assumes "fetchAll_loop this w acc = Some r"
  shows "\<exists>k. ends_loop (this_first this) (fst (nth_nextPage k this w))"
  by (rule fetchAll_loop.raw_induct
        [where P = "\<lambda>this w acc r. \<exists>k. ends_loop (this_first this) (fst (nth_nextPage k this w))",
         OF _ assms])
     (rule fetchAll_loop_halts_step)

lemma fetchAll_loop_returns_iff:
  "(\<exists>r. fetchAll_loop this w acc = Some r) \<longleftrightarrow>
   (\<exists>k. ends_loop (this_first this) (fst (nth_nextPage k this w)))"
proof
  assume "\<exists>r. fetchAll_loop this w acc = Some r"
  then obtain r where "fetchAll_loop this w acc = Some r" ..
  then show "\<exists>k. ends_loop (this_first this) (fst (nth_nextPage k this w))"
    by (rule fetchAll_loop_halts)
next
  assume "\<exists>k. ends_loop (this_first this) (fst (nth_nextPage k this w))"
  then obtain k where "ends_loop (this_first this) (fst (nth_nextPage k this w))" ..
  then show "\<exists>r. fetchAll_loop this w acc = Some r"
    by (rule fetchAll_loop_returns)
qed

lemma map_option_returns: "(\<exists>r. map_option g x = Some r) \<longleftrightarrow> (\<exists>r. x = Some r)"
  by (cases x) simp_all

lemma fetchAllPages_as_Paginator:
  "n \<noteq> 0 \<Longrightarrow> fetchAllPages fp (Some \<lparr> first = Some n, after = cur \<rparr>) w =
     map_option (\<lambda>(r, this', w'). (r, w'))
       (fetchAll_loop \<lparr> fetchPage = fp, this_first = n, currentCursor = cur, hasMore = True \<rparr> w [])"
  by (simp add: fetchAllPages_def loops_agree)

text \<open>
  C2 (amended). \<^verbatim>\<open>fetchAll()\<close> returns or throws iff one of the successive calls of
  \<^verbatim>\<open>nextPage()\<close> has its fetch rejected or gets a page that ends the traversal (fewer
  nodes than the page size, \<^verbatim>\<open>hasNextPage\<close> false, no \<^verbatim>\<open>pageInfo\<close>, or an end cursor that
  is \<^verbatim>\<open>null\<close> or empty); the same holds of \<^verbatim>\<open>fetchAllPages\<close> with a page size other than
  zero. So a short page ends the loop whatever its metadata says, and on a backend whose
  every page is full and reports a next page with a cursor, the loop never ends.
\<close>

theorem fetchAll_returns_iff_a_fetch_ends_the_loop:
  "((\<exists>r. fetchAll this w = Some r) \<longleftrightarrow>
      (\<exists>k. ends_loop (this_first this) (fst (nth_nextPage k this w))))
   \<and> (n \<noteq> 0 \<longrightarrow>
        ((\<exists>r. fetchAllPages fp (Some \<lparr> first = Some n, after = cur \<rparr>) w = Some r) \<longleftrightarrow>
         (\<exists>k. ends_loop n (fst (nth_nextPage k
            \<lparr> fetchPage = fp, this_first = n, currentCursor = cur, hasMore = True \<rparr> w)))))"
proof (intro conjI impI)
  show "(\<exists>r. fetchAll this w = Some r) \<longleftrightarrow>
      (\<exists>k. ends_loop (this_first this) (fst (nth_nextPage k this w)))"
    unfolding fetchAll_def by (rule fetchAll_loop_returns_iff)
next
  assume n: "n \<noteq> 0"
  let ?pg = "\<lparr> fetchPage = fp, this_first = n, currentCursor = cur, hasMore = True \<rparr>"
  have "(\<exists>r. fetchAllPages fp (Some \<lparr> first = Some n, after = cur \<rparr>) w = Some r) \<longleftrightarrow>
        (\<exists>r. fetchAll_loop ?pg w [] = Some r)"
    unfolding fetchAllPages_as_Paginator[OF n] by (rule map_option_returns)
  also have "\<dots> \<longleftrightarrow> (\<exists>k. ends_loop (this_first ?pg) (fst (nth_nextPage k ?pg w)))"
    by (rule fetchAll_loop_returns_iff)
  finally show "(\<exists>r. fetchAllPages fp (Some \<lparr> first = Some n, after = cur \<rparr>) w = Some r) \<longleftrightarrow>
         (\<exists>k. ends_loop n (fst (nth_nextPage k ?pg w)))"
    by simp
qed

lemma always_more_never_ends:
  "\<not> ends_loop 1 (fst (nth_nextPage k
       \<lparr> fetchPage = deterministic always_more, this_first = 1, currentCursor = c, hasMore = True \<rparr> w))"
proof (induction k arbitrary: c)
  case 0
  show ?case
    by (simp add: nextPage_def deterministic_def always_more_def truthy_def Let_def ends_loop_def
        page_ends_traversal_def)
next
  case (Suc k)
  have "nextPage \<lparr> fetchPage = deterministic always_more, this_first = 1, currentCursor = c,
                   hasMore = True \<rparr> w =
     (Inr \<lparr> nodes = [0], pageInfo = Some \<lparr> hasNextPage = True, endCursor = Some ''c'' \<rparr> \<rparr>,
      \<lparr> fetchPage = deterministic always_more, this_first = 1, currentCursor = Some ''c'',
        hasMore = True \<rparr>, w)"
    by (simp add: nextPage_def deterministic_def always_more_def truthy_def Let_def)
  with Suc[of "Some ''c''"] show ?case by simp
qed

text \<open>On the backend whose every page is full and reports a next page with a cursor,
  \<^verbatim>\<open>fetchAll()\<close> never returns.\<close>

theorem always_more_counterexample:
  "fetchAll (new_Paginator (deterministic always_more) (Some 1)) () = None"
proof (cases "fetchAll (new_Paginator (deterministic always_more) (Some 1)) ()")
  case None
  then show ?thesis .
next
  case (Some r)
  then have "fetchAll_loop
      \<lparr> fetchPage = deterministic always_more, this_first = 1, currentCursor = None, hasMore = True \<rparr>
      () [] = Some r"
    by (simp add: fetchAll_def new_Paginator_def)
  from fetchAll_loop_halts[OF this] always_more_never_ends[of _ None "()"]
  show ?thesis by simp
qed

text \<open>Scenario B: the second fetch gets a short page, so both loops return.\<close>

theorem fetchAll_returns_iff_a_fetch_ends_the_loop_witness:
  "ends_loop 50 (fst (nth_nextPage 1
       (new_Paginator (logging (deterministic scenarioB)) (Some 50)) ((), [])))
   \<and> fetchAll (new_Paginator (logging (deterministic scenarioB)) (Some 50)) ((), []) \<noteq> None
   \<and> (50::int) \<noteq> 0
   \<and> ends_loop 50 (fst (nth_nextPage 1
       \<lparr> fetchPage = logging (deterministic scenarioB), this_first = 50, currentCursor = None,
         hasMore = True \<rparr> ((), [])))
   \<and> fetchAllPages (logging (deterministic scenarioB)) (Some \<lparr> first = Some 50, after = None \<rparr>)
         ((), []) \<noteq> None"
proof -
  let ?pg = "new_Paginator (logging (deterministic scenarioB)) (Some 50)
               :: (nat, string, unit \<times> PaginationOptions list) Paginator"
  have pg: "?pg = \<lparr> fetchPage = logging (deterministic scenarioB), this_first = 50,
                    currentCursor = None, hasMore = True \<rparr>"
    by (simp add: new_Paginator_def)
  have e: "ends_loop 50 (fst (nth_nextPage 1 ?pg ((), [])))"
    by (simp add: scenarioB_nextPage_1 scenarioB_nextPage_2 ends_loop_def page_ends_traversal_def
        del: upt_rec_numeral)
  have tf: "this_first ?pg = 50" by (simp add: new_Paginator_def)
  note inst = fetchAll_returns_iff_a_fetch_ends_the_loop
      [of ?pg "((), [])" 50 "logging (deterministic scenarioB)" None, unfolded tf]
  from inst have i1: "(\<exists>r. fetchAll ?pg ((), []) = Some r) \<longleftrightarrow>
      (\<exists>k. ends_loop 50 (fst (nth_nextPage k ?pg ((), []))))"
    by (rule conjunct1)
  from inst have i2: "(\<exists>r. fetchAllPages (logging (deterministic scenarioB))
         (Some \<lparr> first = Some 50, after = None \<rparr>) ((), []) = Some r) \<longleftrightarrow>
      (\<exists>k. ends_loop 50 (fst (nth_nextPage k
         \<lparr> fetchPage = logging (deterministic scenarioB), this_first = 50, currentCursor = None,
           hasMore = True \<rparr> ((), []))))"
    by simp
  from e have ex: "\<exists>k. ends_loop 50 (fst (nth_nextPage k ?pg ((), [])))" by (rule exI)
  with i1 obtain r where "fetchAll ?pg ((), []) = Some r" by blast
  then have a: "fetchAll ?pg ((), []) \<noteq> None" by simp
  from ex i2 obtain r' where "fetchAllPages (logging (deterministic scenarioB))
         (Some \<lparr> first = Some 50, after = None \<rparr>) ((), []) = Some r'"
    unfolding pg by blast
  then have b: "fetchAllPages (logging (deterministic scenarioB))
      (Some \<lparr> first = Some 50, after = None \<rparr>) ((), []) \<noteq> None" by simp
  have e': "ends_loop 50 (fst (nth_nextPage 1
       \<lparr> fetchPage = logging (deterministic scenarioB), this_first = 50, currentCursor = None,
         hasMore = True \<rparr> ((), [])))"
    using e unfolding pg .
  have z: "(50::int) \<noteq> 0" by simp
  show ?thesis by (intro conjI) (fact e a z e' b)+
qed

subsection \<open>\<^verbatim>\<open>fetchAll()\<close> and \<^verbatim>\<open>fetchAllPages\<close>\<close>

text \<open>
  C5. For a positive page size \<open>n\<close>, \<^verbatim>\<open>fetchAllPages(fetchPage, { first: n })\<close> and
  \<^verbatim>\<open>fetchAll()\<close> on \<^verbatim>\<open>new Paginator(fetchPage, n)\<close> have the same outcome: both return the
  same items in the same order, or both throw the same error, or neither returns; and
  they leave the backend in the same state. This holds for every fetch operation, the
  deterministic ones among them, and also when the page size is left out of both.
\<close>

theorem fetchAllPages_same_as_fetchAll:
  assumes "0 < n"
  shows "fetchAllPages fp (Some \<lparr> first = Some n, after = None \<rparr>) w =
           map_option (\<lambda>(r, this', w'). (r, w')) (fetchAll (new_Paginator fp (Some n)) w)
       \<and> map_option fst (fetchAllPages (deterministic f) (Some \<lparr> first = Some n, after = None \<rparr>) w) =
           map_option fst (fetchAll (new_Paginator (deterministic f) (Some n)) w)
       \<and> fetchAllPages fp None w =
           map_option (\<lambda>(r, this', w'). (r, w')) (fetchAll (new_Paginator fp None) w)"
proof -
  from assms have n: "n \<noteq> 0" by simp
  have a: "fetchAllPages fp (Some \<lparr> first = Some n, after = None \<rparr>) w =
           map_option (\<lambda>(r, this', w'). (r, w')) (fetchAll (new_Paginator fp (Some n)) w)" for fp
    by (simp add: fetchAllPages_as_Paginator[OF n] fetchAll_def new_Paginator_def)
  have b: "map_option fst (fetchAllPages (deterministic f) (Some \<lparr> first = Some n, after = None \<rparr>) w) =
           map_option fst (fetchAll (new_Paginator (deterministic f) (Some n)) w)"
    by (simp add: a option.map_comp comp_def case_prod_beta)
  have c: "fetchAllPages fp None w =
           map_option (\<lambda>(r, this', w'). (r, w')) (fetchAll (new_Paginator fp None) w)"
    by (simp add: fetchAllPages_def loops_agree fetchAll_def new_Paginator_def)
  from a b c show ?thesis by blast
qed

text \<open>Scenario B through \<^verbatim>\<open>fetchAllPages\<close>: the same 62 items after the same two requests.\<close>

theorem fetchAllPages_same_as_fetchAll_witness:
  "(0::int) < 50
   \<and> fetchAllPages (logging (deterministic scenarioB)) (Some \<lparr> first = Some 50, after = None \<rparr>)
         ((), []) =
       Some (Inr [0..<62],
             ((), [\<lparr> first = Some 50, after = None \<rparr>, \<lparr> first = Some 50, after = Some ''c1'' \<rparr>]))"
proof -
  have pos: "(0::int) < 50" by simp
  from fetchAllPages_same_as_fetchAll [OF pos, of "logging (deterministic scenarioB)" "((), [])"]
  have "fetchAllPages (logging (deterministic scenarioB)) (Some \<lparr> first = Some 50, after = None \<rparr>)
         ((), []) =
       map_option (\<lambda>(r, this', w'). (r, w'))
         (fetchAll (new_Paginator (logging (deterministic scenarioB)) (Some 50)) ((), []))"
    by (rule conjunct1)
  then show ?thesis by (simp add: scenarioB_fetchAll del: upt_rec_numeral)
qed


subsection \<open>\<^verbatim>\<open>reset()\<close>\<close>

lemma nextPage_deterministic_world:
  "fetchPage this = deterministic f \<Longrightarrow> nextPage this w = (r, this', w') \<Longrightarrow> w' = w"
  by (auto simp: nextPage_def deterministic_def Let_def split: if_splits sum.splits)

lemma fetchAll_loop_fields_step:
  fixes loop :: "('a, 'e, 'w) Paginator \<Rightarrow> 'w \<Rightarrow> 'a list \<Rightarrow>
     (('e + 'a list) \<times> ('a, 'e, 'w) Paginator \<times> 'w) option"
  assumes IH: "\<And>this w acc y. loop this w acc = Some y \<Longrightarrow>
       fetchPage (fst (snd y)) = fetchPage this \<and> this_first (fst (snd y)) = this_first this
       \<and> (fetchPage this = deterministic f \<longrightarrow> snd (snd y) = w)"
    and body: "(if hasMore this then
        (case nextPage this w of
           (Inl e, this', w') \<Rightarrow> Some (Inl e, this', w')
         | (Inr result, this', w') \<Rightarrow> loop this' w' (acc @ nodes result))
      else Some (Inr acc, this, w)) = Some y"
  shows "fetchPage (fst (snd y)) = fetchPage this \<and> this_first (fst (snd y)) = this_first this
       \<and> (fetchPage this = deterministic f \<longrightarrow> snd (snd y) = w)"
proof (cases "hasMore this")
  case False
  with body show ?thesis by auto
next
  case True
  obtain r this' w' where np: "nextPage this w = (r, this', w')"
    by (cases "nextPage this w") auto
  note fields = nextPage_fields[OF np]
  show ?thesis
  proof (cases r)
    case (Inl e)
    with body True np have "y = (Inl e, this', w')" by simp
    with fields nextPage_deterministic_world[OF _ np] show ?thesis by simp
  next
    case (Inr P)
    with body True np have "loop this' w' (acc @ nodes P) = Some y" by simp
    from IH[OF this] fields nextPage_deterministic_world[OF _ np] show ?thesis by simp
  qed
qed

lemma fetchAll_loop_fields:
  assumes "fetchAll_loop this w acc = Some y"
  shows "fetchPage (fst (snd y)) = fetchPage this \<and> this_first (fst (snd y)) = this_first this
       \<and> (fetchPage this = deterministic f \<longrightarrow> snd (snd y) = w)"
  by (rule fetchAll_loop.raw_induct
        [where P = "\<lambda>this w acc y.
           fetchPage (fst (snd y)) = fetchPage this \<and> this_first (fst (snd y)) = this_first this
           \<and> (fetchPage this = deterministic f \<longrightarrow> snd (snd y) = w)",
         OF _ assms])
     (rule fetchAll_loop_fields_step)

lemma run_calls_fields:
  "run_calls cs this w = Some (this', w') \<Longrightarrow>
   fetchPage this' = fetchPage this \<and> this_first this' = this_first this
   \<and> (fetchPage this = deterministic f \<longrightarrow> w' = w)"
proof (induction cs arbitrary: this w)
  case Nil
  then show ?case by simp
next
  case (Cons c cs)
  show ?case
  proof (cases c)
    case NextPage
    obtain r this1 w1 where np: "nextPage this w = (r, this1, w1)"
      by (cases "nextPage this w") auto
    with Cons.prems NextPage have "run_calls cs this1 w1 = Some (this', w')" by simp
    from Cons.IH[OF this] nextPage_fields[OF np] nextPage_deterministic_world[OF _ np]
    show ?thesis by simp
  next
    case FetchAll
    with Cons.prems obtain r this1 w1 where fa: "fetchAll this w = Some (r, this1, w1)"
      and rest: "run_calls cs this1 w1 = Some (this', w')"
      by (auto split: option.splits)
    from fa have "fetchAll_loop this w [] = Some (r, this1, w1)" by (simp add: fetchAll_def)
    from fetchAll_loop_fields[OF this, of f] Cons.IH[OF rest] show ?thesis by simp
  qed
qed

lemma reset_is_new:
  "fetchPage this = fp \<Longrightarrow> this_first this = k \<Longrightarrow> reset this = new_Paginator fp (Some k)"
  by (simp add: reset_def new_Paginator_def)

text \<open>
  C4. After any sequence of calls of \<^verbatim>\<open>nextPage()\<close> and \<^verbatim>\<open>fetchAll()\<close> that have all
  returned or thrown, \<^verbatim>\<open>reset()\<close> makes the Paginator equal to the freshly constructed
  one (same fetch operation and page size, no cursor, \<^verbatim>\<open>hasMore\<close> true). Over a
  deterministic backend, \<^verbatim>\<open>fetchAll()\<close> after the reset therefore has the outcome of
  \<^verbatim>\<open>fetchAll()\<close> on the fresh Paginator: the same items in the same order.
\<close>

theorem reset_then_fetchAll_repeats:
  assumes "run_calls cs (new_Paginator (deterministic f) n) w = Some (this', w')"
  shows "reset this' = new_Paginator (deterministic f) n
       \<and> fetchAll (reset this') w' = fetchAll (new_Paginator (deterministic f) n) w"
proof -
  let ?fresh = "new_Paginator (deterministic f) n :: ('a, 'b, 'c) Paginator"
  have fp: "fetchPage ?fresh = deterministic f" by (simp add: new_Paginator_def)
  from run_calls_fields[OF assms, of f] fp
  have a: "fetchPage this' = deterministic f" and b: "this_first this' = this_first ?fresh"
    and c: "w' = w" by simp_all
  have "reset this' = ?fresh"
    using a b by (simp add: reset_def new_Paginator_def)
  with c show ?thesis by simp
qed

lemma scenarioB_deterministic_fetchAll:
  "fetchAll (new_Paginator (deterministic scenarioB) (Some 50)) () =
     Some (Inr [0..<62],
           \<lparr> fetchPage = deterministic scenarioB, this_first = 50, currentCursor = Some ''c2'',
             hasMore = False \<rparr>, ())"
  by (simp add: fetchAll_def fetchAll_loop.simps nextPage_def new_Paginator_def deterministic_def
      scenarioB_pages truthy_def Let_def scenarioB_items del: upt_rec_numeral)

lemma scenarioB_deterministic_run_calls:
  "run_calls [NextPage, FetchAll] (new_Paginator (deterministic scenarioB) (Some 50)) () =
     Some (\<lparr> fetchPage = deterministic scenarioB, this_first = 50, currentCursor = Some ''c2'',
             hasMore = False \<rparr>, ())"
  by (simp add: fetchAll_def fetchAll_loop.simps nextPage_def new_Paginator_def deterministic_def
      scenarioB_pages truthy_def Let_def del: upt_rec_numeral)

text \<open>Scenario B: after one \<^verbatim>\<open>nextPage()\<close> and a \<^verbatim>\<open>fetchAll()\<close> of the rest, a reset and a
  second \<^verbatim>\<open>fetchAll()\<close> return all 62 items again.\<close>

theorem reset_then_fetchAll_repeats_witness:
  "run_calls [NextPage, FetchAll] (new_Paginator (deterministic scenarioB) (Some 50)) () =
     Some (\<lparr> fetchPage = deterministic scenarioB, this_first = 50, currentCursor = Some ''c2'',
             hasMore = False \<rparr>, ())
   \<and> fetchAll (reset \<lparr> fetchPage = deterministic scenarioB, this_first = 50,
                       currentCursor = Some ''c2'', hasMore = False \<rparr>) () =
       Some (Inr [0..<62],
             \<lparr> fetchPage = deterministic scenarioB, this_first = 50, currentCursor = Some ''c2'',
               hasMore = False \<rparr>, ())"
  using reset_then_fetchAll_repeats [OF scenarioB_deterministic_run_calls]
    scenarioB_deterministic_run_calls scenarioB_deterministic_fetchAll
  by simp

section \<open>Properties of the listing of all cycles\<close>

lemma those_map_Some: "those (map Some vs) = Some vs"
  by (induction vs) simp_all

lemma Promise_all_loop_fulfilled:
  assumes "ps = map Inr vs"
    and "length slots = length vs"
    and "\<forall>i<length vs. slots ! i = Some (vs ! i) \<or> i \<in> set order"
  shows "Promise_all_loop order ps slots = Some (Inr vs)"
  using assms(2,3)
proof (induction order arbitrary: slots)
  case Nil
  then have "slots = map Some vs"
    by (intro nth_equalityI) simp_all
  then show ?case by (simp add: those_map_Some)
next
  case (Cons i order)
  show ?case
  proof (cases "i < length vs")
    case True
    have "Promise_all_loop order ps (slots[i := Some (vs ! i)]) = Some (Inr vs)"
    proof (rule Cons.IH)
      show "length (slots[i := Some (vs ! i)]) = length vs" using Cons.prems(1) by simp
      show "\<forall>j<length vs. slots[i := Some (vs ! i)] ! j = Some (vs ! j) \<or> j \<in> set order"
      proof (intro allI impI)
        fix j assume j: "j < length vs"
        show "slots[i := Some (vs ! i)] ! j = Some (vs ! j) \<or> j \<in> set order"
        proof (cases "j = i")
          case True
          with j Cons.prems(1) show ?thesis by simp
        next
          case False
          with Cons.prems(2) j show ?thesis by auto
        qed
      qed
    qed
    with True assms(1) show ?thesis by simp
  next
    case False
    have "Promise_all_loop order ps slots = Some (Inr vs)"
    proof (rule Cons.IH[OF Cons.prems(1)])
      show "\<forall>j<length vs. slots ! j = Some (vs ! j) \<or> j \<in> set order"
        using Cons.prems(2) False by auto
    qed
    with False assms(1) show ?thesis by simp
  qed
qed

lemma Promise_all_fulfilled:
  assumes "ps = map Inr vs" and "{..<length vs} \<subseteq> set order"
  shows "Promise_all order ps = Some (Inr vs)"
  unfolding Promise_all_def
proof (rule Promise_all_loop_fulfilled[OF assms(1)])
  show "length (replicate (length ps) None) = length vs" using assms(1) by simp
  show "\<forall>i<length vs. replicate (length ps) None ! i = Some (vs ! i) \<or> i \<in> set order"
    using assms(2) by auto
qed

lemma start_all_deterministic:
  assumes "\<And>x w. x \<in> set xs \<Longrightarrow> f x w = (g x, w)"
  shows "start_all f xs w = (map g xs, w)"
  using assms by (induction xs arbitrary: w) simp_all

lemma listTeams_default:
  "listTeams client \<lparr> first = None, after = None \<rparr> w =
     teams client \<lparr> first = Some 50, after = None \<rparr> w"
  by (simp add: listTeams_def)

lemma listCycles_default:
  "listCycles client teamId \<lparr> first = None, after = None \<rparr> w =
     cycles client \<lparr> first = Some 50, after = None \<rparr> teamId w"
  by (simp add: listCycles_def)

lemma cycles_list_deterministic:
  fixes tq :: "PaginationOptions \<Rightarrow> 'e + Team PaginatedResult"
  assumes T: "tq \<lparr> first = Some 50, after = None \<rparr> = Inr T"
    and C: "\<forall>t \<in> set (nodes T). cq \<lparr> first = Some 50, after = None \<rparr> (team_id t) = Inr (C (team_id t))"
    and order: "{..<length (nodes T)} \<subseteq> set order"
  shows "cycles_list (deterministic_client tq cq) toLocaleDateString order w =
     (Some (Inr (concat (map (\<lambda>t. map (cycle_descriptor toLocaleDateString t)
                               (nodes (C (team_id t)))) (nodes T)))), w)"
proof -
  let ?g = "\<lambda>t. map (cycle_descriptor toLocaleDateString t) (nodes (C (team_id t)))"
  let ?ps = "map (\<lambda>t. Inr (?g t)) (nodes T) :: ('e + ResourceDescriptor list) list"
  have sa: "start_all (team_cycles (deterministic_client tq cq) toLocaleDateString) (nodes T) w =
        (?ps, w)"
    using C by (intro start_all_deterministic)
      (simp add: team_cycles_def listCycles_default deterministic_client_def)
  have pa: "Promise_all order ?ps = Some (Inr (map ?g (nodes T)))"
    using order by (intro Promise_all_fulfilled) simp_all
  have lt: "listTeams (deterministic_client tq cq) \<lparr> first = None, after = None \<rparr> w = (Inr T, w)"
    using T by (simp add: listTeams_default deterministic_client_def)
  show ?thesis
    by (simp add: cycles_list_def lt sa pa)
qed


text \<open>
  C6. Over a read-only backend whose requests all succeed, the listing of
  \<^verbatim>\<open>linear://cycles\<close> is the concatenation, in the order of the teams page, of the
  descriptors of each team's cycles in the order of that team's page, whatever the order
  in which the per-team requests settle.
\<close>

theorem cycles_list_in_team_order:
  fixes tq :: "PaginationOptions \<Rightarrow> 'e + Team PaginatedResult"
  assumes "tq \<lparr> first = Some 50, after = None \<rparr> = Inr T"
    and "\<forall>t \<in> set (nodes T).
           cq \<lparr> first = Some 50, after = None \<rparr> (team_id t) = Inr (C (team_id t))"
    and "set order = {..<length (nodes T)}"
  shows "fst (cycles_list (deterministic_client tq cq) toLocaleDateString order w) =
     Some (Inr (concat (map (\<lambda>t. map (cycle_descriptor toLocaleDateString t)
                               (nodes (C (team_id t)))) (nodes T))))"
  using cycles_list_deterministic
      [where tq = tq and cq = cq and T = T and C = C and order = order
         and toLocaleDateString = toLocaleDateString and w = w, OF assms(1,2)]
    assms(3)
  by simp

lemma scenarioC_teams_page:
  "scenarioC_teams \<lparr> first = Some 50, after = None \<rparr> =
     Inr \<lparr> nodes = [\<lparr> team_id = ''t1'', team_name = ''One'' \<rparr>,
                    \<lparr> team_id = ''t2'', team_name = ''Two'' \<rparr>,
                    \<lparr> team_id = ''t3'', team_name = ''Three'' \<rparr>],
           pageInfo = more_pages \<rparr>"
  by (simp add: scenarioC_teams_def)

text \<open>Scenario C, with the request of the third team settling first, then the first team's,
  then the second's: six descriptors in team order.\<close>

theorem cycles_list_in_team_order_witness:
  "set [2, 0, 1] = {..<(3::nat)}
   \<and> fst (cycles_list (deterministic_client scenarioC_teams scenarioC_cycles) id [2, 0, 1] ()) =
       Some (Inr [\<lparr> uri = ''linear://cycles/t1a'', name = ''A'', description = ''One cycle: s to e'' \<rparr>,
                  \<lparr> uri = ''linear://cycles/t1b'', name = ''Cycle t1b'',
                    description = ''One cycle: s to e'' \<rparr>,
                  \<lparr> uri = ''linear://cycles/t2a'', name = ''A'', description = ''Two cycle: s to e'' \<rparr>,
                  \<lparr> uri = ''linear://cycles/t2b'', name = ''Cycle t2b'',
                    description = ''Two cycle: s to e'' \<rparr>,
                  \<lparr> uri = ''linear://cycles/t3a'', name = ''A'',
                    description = ''Three cycle: s to e'' \<rparr>,
                  \<lparr> uri = ''linear://cycles/t3b'', name = ''Cycle t3b'',
                    description = ''Three cycle: s to e'' \<rparr>])"
proof -
  have o: "set [2, 0, 1] = {..<(3::nat)}" by auto
  have c: "\<forall>t \<in> set (nodes \<lparr> nodes = [\<lparr> team_id = ''t1'', team_name = ''One'' \<rparr>,
                    \<lparr> team_id = ''t2'', team_name = ''Two'' \<rparr>,
                    \<lparr> team_id = ''t3'', team_name = ''Three'' \<rparr>],
           pageInfo = more_pages \<rparr>).
      scenarioC_cycles \<lparr> first = Some 50, after = None \<rparr> (team_id t) =
        Inr (scenarioC_page (team_id t))"
    by (simp add: scenarioC_cycles_def)
  from cycles_list_in_team_order
      [where tq = scenarioC_teams and cq = scenarioC_cycles and C = scenarioC_page
         and order = "[2, 0, 1]" and toLocaleDateString = id and w = "()",
       OF scenarioC_teams_page c] o
  show ?thesis
    by (simp add: cycle_descriptor_def formatCycleDates_def scenarioC_page_def)
qed

lemma team_cycles_logging:
  "team_cycles (logging_client c) toLocaleDateString t (w, calls) =
     (fst (team_cycles c toLocaleDateString t w),
      (snd (team_cycles c toLocaleDateString t w),
       calls @ [CyclesRequest \<lparr> first = Some 50, after = None \<rparr> (team_id t)]))"
  by (simp add: team_cycles_def listCycles_default logging_client_def split: prod.splits sum.splits)

lemma start_all_snd:
  "snd (start_all f (x # xs) w) = snd (start_all f xs (snd (f x w)))"
  by (simp split: prod.splits)

lemma start_all_logging:
  "snd (snd (start_all (team_cycles (logging_client c) toLocaleDateString) ts (w, calls))) =
     calls @ map (\<lambda>t. CyclesRequest \<lparr> first = Some 50, after = None \<rparr> (team_id t)) ts"
proof (induction ts arbitrary: w calls)
  case Nil
  show ?case by simp
next
  case (Cons t ts)
  have "snd (start_all (team_cycles (logging_client c) toLocaleDateString) (t # ts) (w, calls)) =
        snd (start_all (team_cycles (logging_client c) toLocaleDateString) ts
          (snd (team_cycles c toLocaleDateString t w),
           calls @ [CyclesRequest \<lparr> first = Some 50, after = None \<rparr> (team_id t)]))"
    by (subst start_all_snd) (simp add: team_cycles_logging)
  then show ?case by (simp add: Cons.IH)
qed

lemma cycles_list_logging:
  "snd (snd (cycles_list (logging_client client) toLocaleDateString order (w, calls))) =
     calls @ TeamsRequest \<lparr> first = Some 50, after = None \<rparr> #
       (case fst (teams client \<lparr> first = Some 50, after = None \<rparr> w) of
          Inl e \<Rightarrow> []
        | Inr T \<Rightarrow> map (\<lambda>t. CyclesRequest \<lparr> first = Some 50, after = None \<rparr> (team_id t)) (nodes T))"
proof -
  obtain r w1 where t: "teams client \<lparr> first = Some 50, after = None \<rparr> w = (r, w1)"
    by (cases "teams client \<lparr> first = Some 50, after = None \<rparr> w") auto
  then have lt: "listTeams (logging_client client) \<lparr> first = None, after = None \<rparr> (w, calls) =
      (r, (w1, calls @ [TeamsRequest \<lparr> first = Some 50, after = None \<rparr>]))"
    by (simp add: listTeams_default logging_client_def)
  show ?thesis
  proof (cases r)
    case (Inl e)
    with lt t show ?thesis by (simp add: cycles_list_def)
  next
    case (Inr T)
    obtain ps w2 where sa: "start_all (team_cycles (logging_client client) toLocaleDateString)
        (nodes T) (w1, calls @ [TeamsRequest \<lparr> first = Some 50, after = None \<rparr>]) = (ps, w2)"
      by (cases "start_all (team_cycles (logging_client client) toLocaleDateString)
        (nodes T) (w1, calls @ [TeamsRequest \<lparr> first = Some 50, after = None \<rparr>])") auto
    with start_all_logging[of client toLocaleDateString "nodes T" w1
        "calls @ [TeamsRequest \<lparr> first = Some 50, after = None \<rparr>]"]
    have "snd w2 = calls @ TeamsRequest \<lparr> first = Some 50, after = None \<rparr> #
        map (\<lambda>t. CyclesRequest \<lparr> first = Some 50, after = None \<rparr> (team_id t)) (nodes T)"
      by simp
    with lt t Inr sa show ?thesis
      by (simp add: cycles_list_def split: option.splits sum.splits)
  qed
qed


text \<open>
  C10. The listing of \<^verbatim>\<open>linear://cycles\<close> sends one teams request with page size 50 and
  no cursor and then, for each team of the page it gets, one cycles request with page
  size 50 and no cursor, and nothing else: no request carries a cursor, so no second page
  is fetched. Over a read-only backend the listing is made of the nodes of these pages
  only, whatever their \<^verbatim>\<open>pageInfo\<close> reports: teams and cycles beyond them are left out.
\<close>

theorem cycles_list_fetches_first_pages_only:
  fixes tq :: "PaginationOptions \<Rightarrow> 'e + Team PaginatedResult"
  shows "snd (snd (cycles_list (logging_client client) toLocaleDateString order (w, calls))) =
       calls @ TeamsRequest \<lparr> first = Some 50, after = None \<rparr> #
         (case fst (teams client \<lparr> first = Some 50, after = None \<rparr> w) of
            Inl e \<Rightarrow> []
          | Inr T \<Rightarrow>
              map (\<lambda>t. CyclesRequest \<lparr> first = Some 50, after = None \<rparr> (team_id t)) (nodes T))
   \<and> (tq \<lparr> first = Some 50, after = None \<rparr> = Inr T' \<and>
        (\<forall>t \<in> set (nodes T').
           cq \<lparr> first = Some 50, after = None \<rparr> (team_id t) = Inr (C (team_id t)))
      \<longrightarrow> fst (cycles_list (deterministic_client tq cq) toLocaleDateString
                 [0..<length (nodes T')] w') =
            Some (Inr (concat (map (\<lambda>t. map (cycle_descriptor toLocaleDateString t)
                                      (nodes (C (team_id t)))) (nodes T')))))"
proof (intro conjI impI)
  show "snd (snd (cycles_list (logging_client client) toLocaleDateString order (w, calls))) =
       calls @ TeamsRequest \<lparr> first = Some 50, after = None \<rparr> #
         (case fst (teams client \<lparr> first = Some 50, after = None \<rparr> w) of
            Inl e \<Rightarrow> []
          | Inr T \<Rightarrow>
              map (\<lambda>t. CyclesRequest \<lparr> first = Some 50, after = None \<rparr> (team_id t)) (nodes T))"
    by (rule cycles_list_logging)
next
  assume H: "tq \<lparr> first = Some 50, after = None \<rparr> = Inr T' \<and>
        (\<forall>t \<in> set (nodes T').
           cq \<lparr> first = Some 50, after = None \<rparr> (team_id t) = Inr (C (team_id t)))"
  then have a: "tq \<lparr> first = Some 50, after = None \<rparr> = Inr T'"
    and b: "\<forall>t \<in> set (nodes T').
           cq \<lparr> first = Some 50, after = None \<rparr> (team_id t) = Inr (C (team_id t))"
    by blast+
  have c: "{..<length (nodes T')} \<subseteq> set [0..<length (nodes T')]" by auto
  show "fst (cycles_list (deterministic_client tq cq) toLocaleDateString
                 [0..<length (nodes T')] w') =
            Some (Inr (concat (map (\<lambda>t. map (cycle_descriptor toLocaleDateString t)
                                      (nodes (C (team_id t)))) (nodes T'))))"
    using cycles_list_deterministic
      [where tq = tq and cq = cq and T = T' and C = C and order = "[0..<length (nodes T')]"
         and toLocaleDateString = toLocaleDateString and w = w', OF a b c]
    by simp
qed

text \<open>Scenario C, where every page reports a next page: four requests, none with a cursor,
  and six descriptors.\<close>

theorem cycles_list_fetches_first_pages_only_witness:
  "map_option hasNextPage more_pages = Some True
   \<and> snd (snd (cycles_list (logging_client (deterministic_client scenarioC_teams scenarioC_cycles))
         id [0, 1, 2] ((), []))) =
       [TeamsRequest \<lparr> first = Some 50, after = None \<rparr>,
        CyclesRequest \<lparr> first = Some 50, after = None \<rparr> ''t1'',
        CyclesRequest \<lparr> first = Some 50, after = None \<rparr> ''t2'',
        CyclesRequest \<lparr> first = Some 50, after = None \<rparr> ''t3'']
   \<and> map_option (map_sum id (map uri))
         (fst (cycles_list (deterministic_client scenarioC_teams scenarioC_cycles) id [0..<3] ())) =
       Some (Inr [''linear://cycles/t1a'', ''linear://cycles/t1b'', ''linear://cycles/t2a'',
                  ''linear://cycles/t2b'', ''linear://cycles/t3a'', ''linear://cycles/t3b''])"
proof -
  let ?T = "\<lparr> nodes = [\<lparr> team_id = ''t1'', team_name = ''One'' \<rparr>,
                    \<lparr> team_id = ''t2'', team_name = ''Two'' \<rparr>,
                    \<lparr> team_id = ''t3'', team_name = ''Three'' \<rparr>],
           pageInfo = more_pages \<rparr>"
  have c: "\<forall>t \<in> set (nodes ?T).
      scenarioC_cycles \<lparr> first = Some 50, after = None \<rparr> (team_id t) =
        Inr (scenarioC_page (team_id t))"
    by (simp add: scenarioC_cycles_def)
  note inst = cycles_list_fetches_first_pages_only
      [where client = "deterministic_client scenarioC_teams scenarioC_cycles"
         and toLocaleDateString = id and order = "[0, 1, 2]" and w = "()" and calls = "[]"
         and tq = scenarioC_teams and cq = scenarioC_cycles and C = scenarioC_page
         and T' = ?T and w' = "()"]
  from inst have log:
    "snd (snd (cycles_list (logging_client (deterministic_client scenarioC_teams scenarioC_cycles))
         id [0, 1, 2] ((), []))) =
       [TeamsRequest \<lparr> first = Some 50, after = None \<rparr>,
        CyclesRequest \<lparr> first = Some 50, after = None \<rparr> ''t1'',
        CyclesRequest \<lparr> first = Some 50, after = None \<rparr> ''t2'',
        CyclesRequest \<lparr> first = Some 50, after = None \<rparr> ''t3'']"
    by (simp add: deterministic_client_def scenarioC_teams_def)
  from inst scenarioC_teams_page c
  have r0: "fst (cycles_list (deterministic_client scenarioC_teams scenarioC_cycles) id
                 [0..<length (nodes ?T)] ()) =
            Some (Inr (concat (map (\<lambda>t. map (cycle_descriptor id t)
                                      (nodes (scenarioC_page (team_id t)))) (nodes ?T))))"
    by blast
  have len: "length (nodes ?T) = 3" by simp
  from r0[unfolded len] have res: "map_option (map_sum id (map uri))
         (fst (cycles_list (deterministic_client scenarioC_teams scenarioC_cycles) id [0..<3] ())) =
       Some (Inr [''linear://cycles/t1a'', ''linear://cycles/t1b'', ''linear://cycles/t2a'',
                  ''linear://cycles/t2b'', ''linear://cycles/t3a'', ''linear://cycles/t3b''])"
    by (simp add: cycle_descriptor_def scenarioC_page_def)
  have m: "map_option hasNextPage more_pages = Some True" by (simp add: more_pages_def)
  show ?thesis by (intro conjI) (fact m log res)+
qed

section \<open>Properties of the registered templates\<close>

text \<open>
  C7. The URI \<^verbatim>\<open>linear://cycles/active\<close> is matched by two of the templates that
  \<^verbatim>\<open>registerCycleResources\<close> registers: \<^verbatim>\<open>linear://cycles/{id}\<close> of the resource
  \<^verbatim>\<open>cycle\<close>, which binds \<open>id\<close> to \<open>active\<close>, and \<^verbatim>\<open>linear://cycles/active\<close> of the resource
  \<^verbatim>\<open>activeCycles\<close>. The first is registered first.
\<close>

theorem cycle_templates_overlap:
  "matching_registrations registerCycleResources ''linear://cycles/active'' =
     [''cycle'', ''activeCycles'']
   \<and> template_match ''linear://cycles/{id}'' ''linear://cycles/active'' = Some [(''id'', ''active'')]
   \<and> template_match ''linear://cycles/active'' ''linear://cycles/active'' = Some []"
  by (simp add: matching_registrations_def registerCycleResources_def template_match_def
      parse_segment_def)

end
